theory Spec2Isabelle
  imports Complex_Main "HOL-Library.Sublist"
begin

section \<open>Strings\<close>

text \<open>
  Python \<open>str\<close> values are modelled as \<open>string\<close>, one \<open>char\<close> per code point, for
  text in the range U+0000 .. U+00FF. \<open>isspace\<close> lists the code points of that range
  for which Python's \<open>str.isspace\<close> holds; \<open>strip\<close> and \<open>lower\<close> are
  \<open>str.strip()\<close> and \<open>str.lower()\<close> on that range.
\<close>

definition isspace :: "char \<Rightarrow> bool" where
  "isspace c = (c \<in> set [CHR 0x09, CHR 0x0A, CHR 0x0B, CHR 0x0C, CHR 0x0D,
                          CHR 0x1C, CHR 0x1D, CHR 0x1E, CHR 0x1F, CHR 0x20,
                          CHR 0x85, CHR 0xA0])"

definition strip :: "string \<Rightarrow> string" where
  "strip s = rev (dropWhile isspace (rev (dropWhile isspace s)))"

definition lower_char :: "char \<Rightarrow> char" where
  "lower_char c =
     (let n = (of_char c :: nat)
      in if (65 \<le> n \<and> n \<le> 90) \<or> (192 \<le> n \<and> n \<le> 222 \<and> n \<noteq> 215)
         then char_of (n + 32) else c)"

definition lower :: "string \<Rightarrow> string" where
  "lower s = map lower_char s"

text \<open>\<open>"\n".join(lines)\<close>\<close>

fun join :: "string list \<Rightarrow> string" where
  "join [] = []"
| "join [l] = l"
| "join (l # ls) = l @ CHR 0x0A # join ls"

section \<open>The message store\<close>

text \<open>
  A row of table \<open>messages\<close> is \<open>(id, from_user_id, to_user_id, message, created_at)\<close>;
  the queries select \<open>(id, from_user_id, message, created_at)\<close>. \<open>next_id\<close> is the
  sequence behind the \<open>SERIAL\<close> column. Timestamps are abstract clock readings.
  Every store function opens its own connection; \<open>db_cond\<close> says how the call goes,
  each failure with the text of its exception:
  \<^item> \<open>NoConnection\<close>: the connection cannot be made;
  \<^item> \<open>QueryError\<close>: the statement raises before the server has done anything;
  \<^item> \<open>Rejected\<close>: the server refuses the statement, or the commit fails; nothing is
    written, but an \<open>INSERT\<close> has by then drawn its id from the sequence, and that id
    is never handed out again;
  \<^item> \<open>LateError\<close>: an exception after the statement has taken effect (after the
    commit, or after the rows were fetched, while the cursor or connection is closed):
    the effect stays and the function takes its \<open>except\<close> branch;
  \<^item> \<open>DbOk\<close>: all is well.
  A successful \<open>INSERT ... RETURNING\<close> always yields its row, so the branch
  \<open>No ID returned\<close> of \<open>insert_message_returning_id\<close> has no counterpart here.
\<close>

type_synonym msg_row = "int \<times> string \<times> string \<times> string \<times> nat"
type_synonym row = "int \<times> string \<times> string \<times> nat"

record database =
  messages :: "msg_row list"
  next_id :: int

datatype db_cond =
    DbOk
  | NoConnection string
  | QueryError string
  | Rejected string
  | LateError string

datatype speaker = You | Partner

text \<open>
  What the session writes to the terminal after its header. \<open>Message rid who msg created\<close>
  stands for the two lines printed for one message; \<open>rid\<close> is the id of the row they
  render (not itself printed).
\<close>

datatype out =
    Message int speaker string nat
  | NoHistory
  | CannotConnect string
  | ClearPrompt
  | ChatCleared
  | ClearFailed string
  | SendFailed "string + nat"

fun connect_db :: "db_cond \<Rightarrow> out list \<times> bool" where
  "connect_db (NoConnection e) = ([CannotConnect e], False)"
| "connect_db c = ([], True)"

definition in_conversation :: "string \<Rightarrow> string \<Rightarrow> msg_row \<Rightarrow> bool" where
  "in_conversation u p m =
     (case m of (i, frm, to, txt, ts) \<Rightarrow> (frm = u \<and> to = p) \<or> (frm = p \<and> to = u))"

definition select_row :: "msg_row \<Rightarrow> row" where
  "select_row m = (case m of (i, frm, to, txt, ts) \<Rightarrow> (i, frm, txt, ts))"

definition insert_message_returning_id ::
  "db_cond \<Rightarrow> database \<Rightarrow> string \<Rightarrow> string \<Rightarrow> string \<Rightarrow> nat
     \<Rightarrow> out list \<times> database \<times> (string + int \<times> nat)" where
  "insert_message_returning_id c d from_id to_id message_text now =
     (case connect_db c of
        (pr, False) \<Rightarrow> (pr, d, Inl ''DB connection failed'')
      | (pr, True) \<Rightarrow>
          (case c of
             QueryError e \<Rightarrow> (pr, d, Inl e)
           | Rejected e \<Rightarrow> (pr, d\<lparr>next_id := next_id d + 1\<rparr>, Inl e)
           | LateError e \<Rightarrow>
               (pr,
                d\<lparr>messages := messages d @ [(next_id d, from_id, to_id, message_text, now)],
                  next_id := next_id d + 1\<rparr>,
                Inl e)
           | _ \<Rightarrow> (pr,
                   d\<lparr>messages := messages d @ [(next_id d, from_id, to_id, message_text, now)],
                     next_id := next_id d + 1\<rparr>,
                   Inr (next_id d, now))))"

definition get_chat_history_since ::
  "db_cond \<Rightarrow> database \<Rightarrow> string \<Rightarrow> string \<Rightarrow> int \<Rightarrow> out list \<times> row list" where
  "get_chat_history_since c d user_id partner_id since_id =
     (case connect_db c of
        (pr, False) \<Rightarrow> (pr, [])
      | (pr, True) \<Rightarrow>
          (case c of
             QueryError e \<Rightarrow> (pr, [])
           | Rejected e \<Rightarrow> (pr, [])
           | LateError e \<Rightarrow> (pr, [])
           | _ \<Rightarrow> (pr, sort_key fst (map select_row
                        (filter (\<lambda>m. in_conversation user_id partner_id m \<and> since_id < fst m)
                                (messages d))))))"

definition get_chat_history_all ::
  "db_cond \<Rightarrow> database \<Rightarrow> string \<Rightarrow> string \<Rightarrow> out list \<times> row list" where
  "get_chat_history_all c d user_id partner_id =
     (case connect_db c of
        (pr, False) \<Rightarrow> (pr, [])
      | (pr, True) \<Rightarrow>
          (case c of
             QueryError e \<Rightarrow> (pr, [])
           | Rejected e \<Rightarrow> (pr, [])
           | LateError e \<Rightarrow> (pr, [])
           | _ \<Rightarrow> (pr, sort_key fst (map select_row
                        (filter (in_conversation user_id partner_id) (messages d))))))"

definition clear_chat_between ::
  "db_cond \<Rightarrow> database \<Rightarrow> string \<Rightarrow> string \<Rightarrow> out list \<times> database \<times> (string + unit)" where
  "clear_chat_between c d user_id partner_id =
     (case connect_db c of
        (pr, False) \<Rightarrow> (pr, d, Inl ''DB connection failed'')
      | (pr, True) \<Rightarrow>
          (case c of
             QueryError e \<Rightarrow> (pr, d, Inl e)
           | Rejected e \<Rightarrow> (pr, d, Inl e)
           | LateError e \<Rightarrow>
               (pr,
                d\<lparr>messages := filter (\<lambda>m. \<not> in_conversation user_id partner_id m) (messages d)\<rparr>,
                Inl e)
           | _ \<Rightarrow> (pr,
                   d\<lparr>messages := filter (\<lambda>m. \<not> in_conversation user_id partner_id m) (messages d)\<rparr>,
                   Inr ())))"

section \<open>Session state\<close>

text \<open>
  \<open>chat_session\<close> and its \<open>ChatPoller\<close> thread share \<open>displayed_ids\<close>, the poller's
  \<open>last_id\<close> and \<open>stop_event\<close>. The two threads are modelled as one transition system:
  each event is one step of one thread, and any list of events is a schedule. The
  foreground is at \<open>input()\<close> of the composition loop (\<open>Reading lines\<close>), at the
  confirmation prompt (\<open>Confirming\<close>), between the return of
  \<open>insert_message_returning_id\<close> and \<open>displayed_ids.add(mid)\<close> (\<open>Sending\<close>), or has
  left \<open>chat_session\<close> (by \<open>return\<close>; by an exception of \<open>input()\<close> at the
  confirmation prompt, which nothing catches: \<open>Raised\<close>; or by an exception of the
  output of a message: \<open>Failed\<close>). The poller is at the head of its loop,
  inside the \<open>for\<close> over the rows it fetched, in \<open>time.sleep\<close>, or has left \<open>run\<close>.
\<close>

datatype exn = KeyboardInterrupt | EOFError

datatype inp = Line string | Raises exn

datatype fg_pc =
    Reading "string list"
  | Confirming
  | Sending int nat string
  | Returned
  | Raised exn
  | Failed

datatype poller_pc = AtHead | Delivering row "row list" | Sleeping | Exited

text \<open>The calls the poller thread makes, in order.\<close>

datatype pact = PFetch int | PCallback row | PSleep real

definition POLL_INTERVAL :: real where
  "POLL_INTERVAL = 1.0"

record state =
  db :: database
  displayed_ids :: "int set"
  last_id :: int
  stop_event :: bool
  poller :: poller_pc
  poll_log :: "pact list"
  fg :: fg_pc
  submitted :: "string list"
  screen :: "out list"

text \<open>\<open>submitted\<close> lists the \<open>message_text\<close> of every call of
  \<open>insert_message_returning_id\<close> made by \<open>chat_session\<close>, in order.\<close>

definition render :: "string \<Rightarrow> row \<Rightarrow> out" where
  "render u r = (case r of (rid, frm, msg, created) \<Rightarrow>
     Message rid (if frm = u then You else Partner) msg created)"

text \<open>Lines 352-367 and 383-385: history is printed, the registry and watermark seeded,
  the poller started.\<close>

definition history_step :: "string \<Rightarrow> row \<Rightarrow> state \<Rightarrow> state" where
  "history_step u r s =
     s\<lparr>displayed_ids := insert (fst r) (displayed_ids s),
       last_id := max (last_id s) (fst r),
       screen := screen s @ [render u r]\<rparr>"

definition open_session :: "db_cond \<Rightarrow> database \<Rightarrow> string \<Rightarrow> string \<Rightarrow> state" where
  "open_session c d u p =
     (case get_chat_history_all c d u p of (pr, history) \<Rightarrow>
        (let s0 = \<lparr>db = d, displayed_ids = {}, last_id = 0, stop_event = False,
                   poller = AtHead, poll_log = [], fg = Reading [], submitted = [],
                   screen = pr\<rparr>
         in if history \<noteq> [] then fold (history_step u) history s0
            else s0\<lparr>screen := screen s0 @ [NoHistory]\<rparr>))"

text \<open>Lines 370-381, the callback.\<close>

definition on_new :: "string \<Rightarrow> row \<Rightarrow> state \<Rightarrow> state" where
  "on_new u r s =
     (if fst r \<in> displayed_ids s then s
      else s\<lparr>displayed_ids := insert (fst r) (displayed_ids s),
             screen := screen s @ [render u r]\<rparr>)"

section \<open>The foreground loop\<close>

text \<open>Lines 397-402, manual reload.\<close>

definition reload :: "string \<Rightarrow> string \<Rightarrow> db_cond \<Rightarrow> state \<Rightarrow> state" where
  "reload u p c s =
     (case get_chat_history_since c (db s) u p (last_id s) of (pr, rows) \<Rightarrow>
        fold (on_new u) rows (s\<lparr>screen := screen s @ pr\<rparr>))"

text \<open>Lines 424-433: what follows the \<open>break\<close> of the inner loop, up to the return of
  \<open>insert_message_returning_id\<close>. \<open>not mid\<close> holds for \<open>None\<close> and for \<open>0\<close>.\<close>

definition submit :: "string \<Rightarrow> string \<Rightarrow> db_cond \<Rightarrow> nat \<Rightarrow> string list \<Rightarrow> state \<Rightarrow> state" where
  "submit u p c now lines s =
     (if lines = [] then s\<lparr>fg := Reading []\<rparr>
      else let message_text = strip (join lines)
           in if message_text = [] then s\<lparr>fg := Reading []\<rparr>
              else (case insert_message_returning_id c (db s) u p message_text now of
                      (pr, d', res) \<Rightarrow>
                        (let s' = s\<lparr>db := d', screen := screen s @ pr,
                                    submitted := submitted s @ [message_text]\<rparr>
                         in case res of
                              Inl err \<Rightarrow>
                                s'\<lparr>screen := screen s' @ [SendFailed (Inl err)], fg := Reading []\<rparr>
                            | Inr (mid, created) \<Rightarrow>
                                if mid = 0
                                then s'\<lparr>screen := screen s' @ [SendFailed (Inr created)],
                                        fg := Reading []\<rparr>
                                else s'\<lparr>fg := Sending mid created message_text\<rparr>)))"

text \<open>Lines 392-423: one pass of the inner loop, from \<open>input()\<close>.\<close>

definition read_line :: "inp \<Rightarrow> string" where
  "read_line i = (case i of Line l \<Rightarrow> l | Raises e \<Rightarrow> ''='')"

definition compose :: "string \<Rightarrow> string \<Rightarrow> db_cond \<Rightarrow> nat \<Rightarrow> string list \<Rightarrow> string \<Rightarrow> state \<Rightarrow> state" where
  "compose u p c now lines line s =
     (if lower (strip line) = ''r'' \<and> lines = [] then reload u p c s
      else if lower (strip line) = ''c'' \<and> lines = []
        then s\<lparr>screen := screen s @ [ClearPrompt], fg := Confirming\<rparr>
      else if strip line = ''='' \<and> lines = []
        then s\<lparr>stop_event := True, fg := Returned\<rparr>
      else if line = [] \<and> lines \<noteq> [] \<and> last lines = []
        then submit u p c now (butlast lines) s
      else s\<lparr>fg := Reading (lines @ [line])\<rparr>)"

text \<open>Lines 404-413: the answer to the confirmation prompt. An exception of this
  \<open>input()\<close> leaves \<open>chat_session\<close> through its \<open>finally\<close>.\<close>

definition confirm :: "string \<Rightarrow> string \<Rightarrow> db_cond \<Rightarrow> inp \<Rightarrow> state \<Rightarrow> state" where
  "confirm u p c i s =
     (case i of
        Raises e \<Rightarrow> s\<lparr>stop_event := True, fg := Raised e\<rparr>
      | Line l \<Rightarrow>
          if lower (strip l) = ''y'' then
            (case clear_chat_between c (db s) u p of
               (pr, d', Inr ok) \<Rightarrow>
                 s\<lparr>db := d', screen := screen s @ pr @ [ChatCleared], displayed_ids := {},
                   fg := Reading []\<rparr>
             | (pr, d', Inl err) \<Rightarrow>
                 s\<lparr>db := d', screen := screen s @ pr @ [ClearFailed err], fg := Reading []\<rparr>)
          else s\<lparr>fg := Reading []\<rparr>)"

text \<open>Lines 435-438: the sent message is recorded and shown.\<close>

definition show_sent :: "int \<Rightarrow> nat \<Rightarrow> string \<Rightarrow> state \<Rightarrow> state" where
  "show_sent mid created message_text s =
     s\<lparr>displayed_ids := insert mid (displayed_ids s),
       screen := screen s @ [Message mid You message_text created],
       fg := Reading []\<rparr>"

text \<open>
  The same two places when the output of a message raises (line 374 or the printing
  below it, line 436 or the printing below it). In a reload, rows already in the
  registry pass silently; the first other row is registered and the exception then
  leaves \<open>chat_session\<close> through its \<open>finally\<close>, which sets the stop event. After a
  send, the id is registered before the exception. The notices and the history printed
  when the session opens are taken to print.
\<close>

fun reload_rows_raising :: "row list \<Rightarrow> state \<Rightarrow> state" where
  "reload_rows_raising [] s = s"
| "reload_rows_raising (r # rs) s =
     (if fst r \<in> displayed_ids s then reload_rows_raising rs s
      else s\<lparr>displayed_ids := insert (fst r) (displayed_ids s),
             stop_event := True, fg := Failed\<rparr>)"

definition reload_raising :: "string \<Rightarrow> string \<Rightarrow> db_cond \<Rightarrow> state \<Rightarrow> state" where
  "reload_raising u p c s =
     (case get_chat_history_since c (db s) u p (last_id s) of (pr, rows) \<Rightarrow>
        reload_rows_raising rows (s\<lparr>screen := screen s @ pr\<rparr>))"

definition show_sent_raising :: "int \<Rightarrow> state \<Rightarrow> state" where
  "show_sent_raising mid s =
     s\<lparr>displayed_ids := insert mid (displayed_ids s), stop_event := True, fg := Failed\<rparr>"

section \<open>The poller thread\<close>

text \<open>Lines 331-334: the loop test and the fetch. With no rows the thread goes to sleep.\<close>

definition poll_head :: "string \<Rightarrow> string \<Rightarrow> db_cond \<Rightarrow> state \<Rightarrow> state" where
  "poll_head u p c s =
     (if stop_event s then s\<lparr>poller := Exited\<rparr>
      else case get_chat_history_since c (db s) u p (last_id s) of (pr, rows) \<Rightarrow>
             (case rows of
                [] \<Rightarrow> s\<lparr>screen := screen s @ pr,
                        poll_log := poll_log s @ [PFetch (last_id s), PSleep POLL_INTERVAL],
                        poller := Sleeping\<rparr>
              | r # rs \<Rightarrow> s\<lparr>screen := screen s @ pr,
                            poll_log := poll_log s @ [PFetch (last_id s)],
                            poller := Delivering r rs\<rparr>))"

text \<open>
  Lines 335-342: one pass of the \<open>for\<close> loop. \<open>raises\<close> says that the callback's
  output fails with an exception; that can only happen once the id is in
  \<open>displayed_ids\<close>, and sends the thread to the \<open>except\<close> branch, which sleeps.
\<close>

definition poll_deliver :: "string \<Rightarrow> bool \<Rightarrow> row \<Rightarrow> row list \<Rightarrow> state \<Rightarrow> state" where
  "poll_deliver u raises r rs s =
     (let s1 = s\<lparr>last_id := (if last_id s < fst r then fst r else last_id s),
                 poll_log := poll_log s @ [PCallback r]\<rparr>
      in if raises \<and> fst r \<notin> displayed_ids s1
         then s1\<lparr>displayed_ids := insert (fst r) (displayed_ids s1),
                 poll_log := poll_log s1 @ [PSleep POLL_INTERVAL],
                 poller := Sleeping\<rparr>
         else let s2 = on_new u r s1
              in case rs of
                   [] \<Rightarrow> s2\<lparr>poll_log := poll_log s2 @ [PSleep POLL_INTERVAL], poller := Sleeping\<rparr>
                 | r' # rs' \<Rightarrow> s2\<lparr>poller := Delivering r' rs'\<rparr>)"

section \<open>Schedules\<close>

text \<open>
  \<open>Fg i c now\<close>: the foreground's \<open>input()\<close> yields \<open>i\<close>; \<open>c\<close> and \<open>now\<close> are the
  store's condition and clock for the store call this pass may make. \<open>FgShow\<close>: the
  foreground goes on after a successful insert. \<open>FgRaise\<close> and \<open>FgShowRaise\<close> are the
  same two steps when the output of a message raises; a pass that shows no message
  is not changed by it. \<open>PollHead\<close>, \<open>PollDeliver\<close>,
  \<open>PollWake\<close>: the poller's steps. \<open>RemoteInsert\<close>: another client inserts a row.
  An event that does not fit where its thread stands changes nothing.

  Granularity: one pass of the foreground's inner loop is one step (a reload with its
  fetch and its calls of the callback included), except that a send is cut between the
  return of the insert and \<open>displayed_ids.add(mid)\<close>; the poller's cycle is cut after
  the fetch, after each row and at the sleep.
\<close>

datatype event =
    Fg inp db_cond nat
  | FgShow
  | FgRaise inp db_cond nat
  | FgShowRaise
  | PollHead db_cond
  | PollDeliver bool
  | PollWake
  | RemoteInsert string string string nat

definition step :: "string \<Rightarrow> string \<Rightarrow> state \<Rightarrow> event \<Rightarrow> state" where
  "step u p s e =
     (case e of
        Fg i c now \<Rightarrow>
          (case fg s of
             Reading lines \<Rightarrow> compose u p c now lines (read_line i) s
           | Confirming \<Rightarrow> confirm u p c i s
           | _ \<Rightarrow> s)
      | FgShow \<Rightarrow>
          (case fg s of
             Sending mid created message_text \<Rightarrow> show_sent mid created message_text s
           | _ \<Rightarrow> s)
      | FgRaise i c now \<Rightarrow>
          (case fg s of
             Reading lines \<Rightarrow>
               if lower (strip (read_line i)) = ''r'' \<and> lines = [] then reload_raising u p c s
               else compose u p c now lines (read_line i) s
           | Confirming \<Rightarrow> confirm u p c i s
           | _ \<Rightarrow> s)
      | FgShowRaise \<Rightarrow>
          (case fg s of
             Sending mid created message_text \<Rightarrow> show_sent_raising mid s
           | _ \<Rightarrow> s)
      | PollHead c \<Rightarrow> (case poller s of AtHead \<Rightarrow> poll_head u p c s | _ \<Rightarrow> s)
      | PollDeliver raises \<Rightarrow>
          (case poller s of Delivering r rs \<Rightarrow> poll_deliver u raises r rs s | _ \<Rightarrow> s)
      | PollWake \<Rightarrow> (case poller s of Sleeping \<Rightarrow> s\<lparr>poller := AtHead\<rparr> | _ \<Rightarrow> s)
      | RemoteInsert frm to txt now \<Rightarrow>
          s\<lparr>db := fst (snd (insert_message_returning_id DbOk (db s) frm to txt now))\<rparr>)"

definition run :: "string \<Rightarrow> string \<Rightarrow> state \<Rightarrow> event list \<Rightarrow> state" where
  "run u p s evs = foldl (step u p) s evs"

fun rendered_ids :: "out list \<Rightarrow> int list" where
  "rendered_ids [] = []"
| "rendered_ids (Message rid who msg created # os) = rid # rendered_ids os"
| "rendered_ids (x # os) = rendered_ids os"

definition empty_db :: database where
  "empty_db = \<lparr>messages = [], next_id = 1\<rparr>"

text \<open>The events of the poller thread.\<close>

fun is_poll :: "event \<Rightarrow> bool" where
  "is_poll (PollHead c) = True"
| "is_poll (PollDeliver b) = True"
| "is_poll PollWake = True"
| "is_poll e = False"

text \<open>The sequence hands out ids above every id in the table.\<close>

definition db_wf :: "database \<Rightarrow> bool" where
  "db_wf d = (\<forall>m \<in> set (messages d). fst m < next_id d)"

text \<open>Every row of the conversation above the watermark is in the registry.\<close>

definition caught_up :: "string \<Rightarrow> string \<Rightarrow> state \<Rightarrow> bool" where
  "caught_up u p s =
     (\<forall>m \<in> set (messages (db s)).
        in_conversation u p m \<and> last_id s < fst m \<longrightarrow> fst m \<in> displayed_ids s)"

text \<open>
  The rows of one fetch that the poller's \<open>for\<close> loop reaches (lines 335-342): it
  walks the rows in order and leaves the loop at the first row whose callback raises.
  \<open>D\<close> is the registry as the loop finds it, and each row comes with the flag saying
  whether the callback's output for it fails.
\<close>

fun delivered :: "int set \<Rightarrow> (bool \<times> row) list \<Rightarrow> row list" where
  "delivered D [] = []"
| "delivered D ((b, r) # xs) =
     (if b \<and> fst r \<notin> D then [r] else r # delivered (insert (fst r) D) xs)"

text \<open>Two users and a session opened on an empty table, for concrete runs.\<close>

abbreviation alice :: string where
  "alice \<equiv> ''11111111''"

abbreviation bob :: string where
  "bob \<equiv> ''22222222''"

abbreviation fresh :: state where
  "fresh \<equiv> open_session DbOk empty_db alice bob"

section \<open>Basic facts\<close>

subsection \<open>Store functions, case by case\<close>

lemma fetch_since_simps:
  "get_chat_history_since DbOk d u p k =
     ([], sort_key fst (map select_row (filter (\<lambda>m. in_conversation u p m \<and> k < fst m) (messages d))))"
  "get_chat_history_since (NoConnection e) d u p k = ([CannotConnect e], [])"
  "get_chat_history_since (QueryError e) d u p k = ([], [])"
  "get_chat_history_since (Rejected e) d u p k = ([], [])"
  "get_chat_history_since (LateError e) d u p k = ([], [])"
  by (simp_all add: get_chat_history_since_def)

lemma fetch_all_simps:
  "get_chat_history_all DbOk d u p =
     ([], sort_key fst (map select_row (filter (in_conversation u p) (messages d))))"
  "get_chat_history_all (NoConnection e) d u p = ([CannotConnect e], [])"
  "get_chat_history_all (QueryError e) d u p = ([], [])"
  "get_chat_history_all (Rejected e) d u p = ([], [])"
  "get_chat_history_all (LateError e) d u p = ([], [])"
  by (simp_all add: get_chat_history_all_def)

lemma insert_simps:
  "insert_message_returning_id DbOk d f t x n =
     ([], d\<lparr>messages := messages d @ [(next_id d, f, t, x, n)], next_id := next_id d + 1\<rparr>,
      Inr (next_id d, n))"
  "insert_message_returning_id (NoConnection e) d f t x n =
     ([CannotConnect e], d, Inl ''DB connection failed'')"
  "insert_message_returning_id (QueryError e) d f t x n = ([], d, Inl e)"
  "insert_message_returning_id (Rejected e) d f t x n =
     ([], d\<lparr>next_id := next_id d + 1\<rparr>, Inl e)"
  "insert_message_returning_id (LateError e) d f t x n =
     ([], d\<lparr>messages := messages d @ [(next_id d, f, t, x, n)], next_id := next_id d + 1\<rparr>,
      Inl e)"
  by (simp_all add: insert_message_returning_id_def)

lemma clear_simps:
  "clear_chat_between DbOk d u p =
     ([], d\<lparr>messages := filter (\<lambda>m. \<not> in_conversation u p m) (messages d)\<rparr>, Inr ())"
  "clear_chat_between (NoConnection e) d u p = ([CannotConnect e], d, Inl ''DB connection failed'')"
  "clear_chat_between (QueryError e) d u p = ([], d, Inl e)"
  "clear_chat_between (Rejected e) d u p = ([], d, Inl e)"
  "clear_chat_between (LateError e) d u p =
     ([], d\<lparr>messages := filter (\<lambda>m. \<not> in_conversation u p m) (messages d)\<rparr>, Inl e)"
  by (simp_all add: clear_chat_between_def)

lemma since_notice: "fst (get_chat_history_since c d u p k) = fst (connect_db c)"
  by (cases c) (simp_all add: fetch_since_simps)

lemma since_rows_subset:
  "r \<in> set (snd (get_chat_history_since c d u p k)) \<Longrightarrow>
     \<exists>m \<in> set (messages d). in_conversation u p m \<and> k < fst m \<and> r = select_row m"
  by (cases c) (auto simp: fetch_since_simps)

lemma all_rows_subset:
  "r \<in> set (snd (get_chat_history_all c d u p)) \<Longrightarrow>
     \<exists>m \<in> set (messages d). in_conversation u p m \<and> r = select_row m"
  by (cases c) (auto simp: fetch_all_simps)

lemma fst_select_row: "fst (select_row m) = fst m"
  by (cases m) (simp add: select_row_def)

lemma since_sorted: "sorted (map fst (snd (get_chat_history_since c d u p k)))"
  by (cases c) (simp_all add: fetch_since_simps)

lemma rendered_ids_append: "rendered_ids (xs @ ys) = rendered_ids xs @ rendered_ids ys"
  by (induction xs rule: rendered_ids.induct) simp_all

lemma rendered_ids_connect: "rendered_ids (fst (connect_db c)) = []"
  by (cases c) simp_all

subsection \<open>The callback\<close>

lemma on_new_shape:
  "\<exists>ext. on_new u r s = s\<lparr>displayed_ids := insert (fst r) (displayed_ids s), screen := screen s @ ext\<rparr>"
proof (cases "fst r \<in> displayed_ids s")
  case True
  then have "on_new u r s = s\<lparr>displayed_ids := insert (fst r) (displayed_ids s), screen := screen s @ []\<rparr>"
    by (simp add: on_new_def insert_absorb)
  then show ?thesis by blast
next
  case False
  then show ?thesis by (auto simp: on_new_def)
qed

lemma fold_on_new_shape:
  "\<exists>ext. fold (on_new u) rows s =
      s\<lparr>displayed_ids := displayed_ids s \<union> fst ` set rows, screen := screen s @ ext\<rparr>"
proof (induction rows arbitrary: s)
  case Nil
  have "s = s\<lparr>displayed_ids := displayed_ids s \<union> fst ` set [], screen := screen s @ []\<rparr>" by simp
  then show ?case by (metis fold_simps(1))
next
  case (Cons r rows)
  obtain e1 where e1: "on_new u r s = s\<lparr>displayed_ids := insert (fst r) (displayed_ids s), screen := screen s @ e1\<rparr>"
    using on_new_shape by blast
  obtain e2 where e2: "fold (on_new u) rows (on_new u r s) =
      (on_new u r s)\<lparr>displayed_ids := displayed_ids (on_new u r s) \<union> fst ` set rows, screen := screen (on_new u r s) @ e2\<rparr>"
    using Cons.IH by blast
  have "fold (on_new u) (r # rows) s =
      s\<lparr>displayed_ids := displayed_ids s \<union> fst ` set (r # rows), screen := screen s @ (e1 @ e2)\<rparr>"
    by (simp add: e2) (simp add: e1)
  then show ?case by blast
qed

lemma fold_on_new_fields [simp]:
  "db (fold (on_new u) rows s) = db s"
  "last_id (fold (on_new u) rows s) = last_id s"
  "stop_event (fold (on_new u) rows s) = stop_event s"
  "poller (fold (on_new u) rows s) = poller s"
  "poll_log (fold (on_new u) rows s) = poll_log s"
  "fg (fold (on_new u) rows s) = fg s"
  "submitted (fold (on_new u) rows s) = submitted s"
  "displayed_ids (fold (on_new u) rows s) = displayed_ids s \<union> fst ` set rows"
proof -
  obtain ext where e: "fold (on_new u) rows s =
      s\<lparr>displayed_ids := displayed_ids s \<union> fst ` set rows, screen := screen s @ ext\<rparr>"
    using fold_on_new_shape by blast
  show "db (fold (on_new u) rows s) = db s"
    "last_id (fold (on_new u) rows s) = last_id s"
    "stop_event (fold (on_new u) rows s) = stop_event s"
    "poller (fold (on_new u) rows s) = poller s"
    "poll_log (fold (on_new u) rows s) = poll_log s"
    "fg (fold (on_new u) rows s) = fg s"
    "submitted (fold (on_new u) rows s) = submitted s"
    "displayed_ids (fold (on_new u) rows s) = displayed_ids s \<union> fst ` set rows"
    by (simp_all add: e)
qed

lemma fold_on_new_prefix: "prefix (screen s) (screen (fold (on_new u) rows s))"
  using fold_on_new_shape [of u rows s] by auto

lemma on_new_fields [simp]:
  "db (on_new u r s) = db s"
  "last_id (on_new u r s) = last_id s"
  "stop_event (on_new u r s) = stop_event s"
  "poller (on_new u r s) = poller s"
  "poll_log (on_new u r s) = poll_log s"
  "fg (on_new u r s) = fg s"
  "submitted (on_new u r s) = submitted s"
  "displayed_ids (on_new u r s) = insert (fst r) (displayed_ids s)"
  using on_new_shape [of u r s] by auto

lemma on_new_prefix: "prefix (screen s) (screen (on_new u r s))"
  using on_new_shape [of u r s] by auto

lemma fold_on_new_seen:
  "\<forall>r \<in> set rows. fst r \<in> displayed_ids s \<Longrightarrow> fold (on_new u) rows s = s"
  by (induction rows arbitrary: s) (simp_all add: on_new_def)

subsection \<open>Case folding\<close>

lemma lower_char_eq_iff:
  assumes d: "of_char d = (k::nat)" and k: "97 \<le> k" "k \<le> 122"
  shows "lower_char c = d \<longleftrightarrow> c = d \<or> c = char_of (k - 32)"
proof -
  define n where "n = (of_char c :: nat)"
  have n256: "n < 256" by (simp add: n_def)
  have cd: "c = d \<longleftrightarrow> n = k"
    using d by (auto simp: n_def)
  have "of_char (char_of (k - 32)) = k - 32"
    using k by (simp add: of_char_of)
  then have cu: "c = char_of (k - 32) \<longleftrightarrow> n = k - 32"
    unfolding n_def by (metis char_of_char)
  show ?thesis
  proof (cases "(65 \<le> n \<and> n \<le> 90) \<or> (192 \<le> n \<and> n \<le> 222 \<and> n \<noteq> 215)")
    case True
    then have "lower_char c = char_of (n + 32)"
      by (simp add: lower_char_def n_def Let_def)
    moreover have "char_of (n + 32) = d \<longleftrightarrow> n + 32 = k"
      using True d by (auto simp: char_of_eq_iff take_bit_eq_mod)
    ultimately show ?thesis using True k cd cu by auto
  next
    case False
    then have "lower_char c = c"
      by (auto simp: lower_char_def n_def Let_def)
    then show ?thesis using False k cd cu by auto
  qed
qed

lemma lower_eq_single:
  assumes d: "of_char d = (k::nat)" and k: "97 \<le> k" "k \<le> 122"
  shows "lower s = [d] \<longleftrightarrow> s = [d] \<or> s = [char_of (k - 32)]"
  using lower_char_eq_iff [OF assms] by (cases s) (auto simp: lower_def)

lemma lower_eq_r: "lower s = ''r'' \<longleftrightarrow> s = ''r'' \<or> s = ''R''"
proof -
  have "char_of (114 - 32 :: nat) = CHR ''R''" by code_simp
  then show ?thesis using lower_eq_single [of "CHR ''r''" 114 s] by simp
qed

lemma lower_eq_c: "lower s = ''c'' \<longleftrightarrow> s = ''c'' \<or> s = ''C''"
proof -
  have "char_of (99 - 32 :: nat) = CHR ''C''" by code_simp
  then show ?thesis using lower_eq_single [of "CHR ''c''" 99 s] by simp
qed

lemma lower_eq_y: "lower s = ''y'' \<longleftrightarrow> s = ''y'' \<or> s = ''Y''"
proof -
  have "char_of (121 - 32 :: nat) = CHR ''Y''" by code_simp
  then show ?thesis using lower_eq_single [of "CHR ''y''" 121 s] by simp
qed

subsection \<open>The composition loop\<close>

lemma strip_Nil: "strip [] = []"
  by (simp add: strip_def)

lemma lower_Nil: "lower [] = []"
  by (simp add: lower_def)

lemma fg_fold_history: "fg (fold (history_step u) h s) = fg s"
  by (induction h arbitrary: s) (simp_all add: history_step_def)

lemma submitted_fold_history: "submitted (fold (history_step u) h s) = submitted s"
  by (induction h arbitrary: s) (simp_all add: history_step_def)

lemma fg_open_session: "fg (open_session c d u p) = Reading []"
  by (simp add: open_session_def fg_fold_history Let_def split: prod.splits)

lemma submitted_open_session: "submitted (open_session c d u p) = []"
  by (simp add: open_session_def submitted_fold_history Let_def split: prod.splits)

lemma submitted_submit:
  "submitted (submit u p c now lines s) =
     (if lines = [] \<or> strip (join lines) = [] then submitted s
      else submitted s @ [strip (join lines)])"
  by (cases c) (simp_all add: submit_def insert_simps Let_def)

lemma submit_blank:
  "strip (join lines) = [] \<Longrightarrow> submit u p c now lines s = s\<lparr>fg := Reading []\<rparr>"
  by (simp add: submit_def)

lemma submit_ok:
  "strip (join lines) \<noteq> [] \<Longrightarrow> next_id (db s) \<noteq> 0 \<Longrightarrow>
   submit u p DbOk now lines s =
     s\<lparr>db := (db s)\<lparr>messages := messages (db s) @ [(next_id (db s), u, p, strip (join lines), now)],
                     next_id := next_id (db s) + 1\<rparr>,
       submitted := submitted s @ [strip (join lines)],
       fg := Sending (next_id (db s)) now (strip (join lines))\<rparr>"
  by (auto simp: submit_def insert_simps Let_def strip_Nil)

lemma step_reading:
  "fg s = Reading lines \<Longrightarrow> step u p s (Fg i c now) = compose u p c now lines (read_line i) s"
  by (simp add: step_def)

lemma compose_terminate:
  "lines \<noteq> [] \<Longrightarrow> last lines = [] \<Longrightarrow>
   compose u p c now lines [] s = submit u p c now (butlast lines) s"
  by (simp add: compose_def strip_Nil lower_Nil)

lemma compose_append:
  "lines \<noteq> [] \<Longrightarrow> line \<noteq> [] \<or> last lines \<noteq> [] \<Longrightarrow>
   compose u p c now lines line s = s\<lparr>fg := Reading (lines @ [line])\<rparr>"
  by (auto simp: compose_def)

lemma compose_first:
  "lower (strip line) \<noteq> ''r'' \<Longrightarrow> lower (strip line) \<noteq> ''c'' \<Longrightarrow> strip line \<noteq> ''='' \<Longrightarrow>
   compose u p c now [] line s = s\<lparr>fg := Reading [line]\<rparr>"
  by (simp add: compose_def)

lemma compose_reload:
  "lower (strip line) = ''r'' \<Longrightarrow> compose u p c now [] line s = reload u p c s"
  by (simp add: compose_def)

lemma compose_clear:
  "lower (strip line) = ''c'' \<Longrightarrow>
   compose u p c now [] line s = s\<lparr>screen := screen s @ [ClearPrompt], fg := Confirming\<rparr>"
  by (simp add: compose_def)

lemma lower_quit: "lower ''='' = ''=''"
  by code_simp

lemma compose_quit:
  "strip line = ''='' \<Longrightarrow> compose u p c now [] line s = s\<lparr>stop_event := True, fg := Returned\<rparr>"
  by (simp add: compose_def lower_quit)

lemma reload_fields:
  "fg (reload u p c s) = fg s"
  "submitted (reload u p c s) = submitted s"
  "db (reload u p c s) = db s"
  "last_id (reload u p c s) = last_id s"
  "stop_event (reload u p c s) = stop_event s"
  "poller (reload u p c s) = poller s"
  "poll_log (reload u p c s) = poll_log s"
  by (simp_all add: reload_def split: prod.splits)

lemma eval_hello:
  "strip ''hello'' = ''hello''" "lower ''hello'' = ''hello''"
  "strip ''world'' = ''world''" "lower ''world'' = ''world''"
  "strip ''hello\<newline>\<newline>world'' = ''hello\<newline>\<newline>world''"
  by code_simp+

lemma run_Nil: "run u p s [] = s"
  by (simp add: run_def)

lemma run_Cons: "run u p s (e # evs) = run u p (step u p s e) evs"
  by (simp add: run_def)

lemma run_append: "run u p s (xs @ ys) = run u p (run u p s xs) ys"
  by (simp add: run_def)

lemma run_snoc: "run u p s (xs @ [e]) = step u p (run u p s xs) e"
  by (simp add: run_def)

lemma hello_once:
  assumes "fg s = Reading []"
  shows "submitted (run u p s [Fg (Line ''hello'') c1 n1, Fg (Line []) c2 n2, Fg (Line []) c3 n3])
           = submitted s @ [''hello'']"
  using assms
  by (simp add: run_Cons run_Nil step_reading read_line_def compose_first compose_append
      compose_terminate eval_hello submitted_submit)

lemma hello_world_once:
  assumes "fg s = Reading []"
  shows "submitted (run u p s [Fg (Line ''hello'') c1 n1, Fg (Line []) c2 n2,
            Fg (Line ''world'') c3 n3, Fg (Line []) c4 n4, Fg (Line []) c5 n5])
           = submitted s @ [''hello\<newline>\<newline>world'']"
  using assms
  by (simp add: run_Cons run_Nil step_reading read_line_def compose_first compose_append
      compose_terminate eval_hello submitted_submit)

lemma stop_event_fold_history: "stop_event (fold (history_step u) h s) = stop_event s"
  by (induction h arbitrary: s) (simp_all add: history_step_def)

lemma stop_event_open_session: "stop_event (open_session c d u p) = False"
  by (simp add: open_session_def stop_event_fold_history Let_def split: prod.splits)

lemma eval_tokens:
  "strip ''r'' = ''r''" "strip ''c'' = ''c''" "strip ''='' = ''=''"
  "lower ''r'' = ''r''" "lower ''c'' = ''c''"
  "strip ''hi'' = ''hi''" "lower ''hi'' = ''hi''"
  "strip ''hi\<newline>r'' = ''hi\<newline>r''"
  "strip ''hello\<newline>='' = ''hello\<newline>=''"
  "strip '' R '' = ''R''" "strip ''C'' = ''C''" "strip '' '' = []"
  by code_simp+

lemma confirm_line_fg: "fg (confirm u p c (Line l) s) = Reading []"
  by (cases c) (simp_all add: confirm_def clear_simps)

lemma step_confirming:
  "fg s = Confirming \<Longrightarrow> step u p s (Fg i c now) = confirm u p c i s"
  by (simp add: step_def)

section \<open>The composition loop: C5, C6, C10, C3\<close>

text \<open>
  C5. The input lines \<open>hello\<close>, blank, blank make the session submit exactly one
  message, \<open>hello\<close>; the lines \<open>hello\<close>, blank, \<open>world\<close>, blank, blank exactly one,
  \<open>hello\<close>, two line breaks, \<open>world\<close>. In general, when a second blank line in a row
  ends an entry, the body is the accumulated lines (the trailing blank dropped) joined
  by line breaks and stripped; an empty body is not sent and composition starts again
  with no lines, any other body is passed to \<open>insert_message_returning_id\<close>, which
  on a working store appends it as a row from the user to the partner.
\<close>

theorem C5_composition:
  "submitted (run u p (open_session c0 d u p)
      [Fg (Line ''hello'') c1 n1, Fg (Line []) c2 n2, Fg (Line []) c3 n3]) = [''hello'']
   \<and> submitted (run u p (open_session c0 d u p)
      [Fg (Line ''hello'') c1 n1, Fg (Line []) c2 n2, Fg (Line ''world'') c3 n3,
       Fg (Line []) c4 n4, Fg (Line []) c5 n5]) = [''hello\<newline>\<newline>world'']
   \<and> (fg s = Reading lines \<and> lines \<noteq> [] \<and> last lines = [] \<longrightarrow>
        (let body = strip (join (butlast lines)); s' = step u p s (Fg (Line []) c now)
         in (body = [] \<longrightarrow> s' = s\<lparr>fg := Reading []\<rparr>)
          \<and> (body \<noteq> [] \<longrightarrow> submitted s' = submitted s @ [body])
          \<and> (body \<noteq> [] \<and> c = DbOk \<and> next_id (db s) \<noteq> 0 \<longrightarrow>
                messages (db s') = messages (db s) @ [(next_id (db s), u, p, body, now)]
                \<and> fg s' = Sending (next_id (db s)) now body)))"
proof (intro conjI impI)
  show "submitted (run u p (open_session c0 d u p)
      [Fg (Line ''hello'') c1 n1, Fg (Line []) c2 n2, Fg (Line []) c3 n3]) = [''hello'']"
    using hello_once [OF fg_open_session] by (simp add: submitted_open_session)
  show "submitted (run u p (open_session c0 d u p)
      [Fg (Line ''hello'') c1 n1, Fg (Line []) c2 n2, Fg (Line ''world'') c3 n3,
       Fg (Line []) c4 n4, Fg (Line []) c5 n5]) = [''hello\<newline>\<newline>world'']"
    using hello_world_once [OF fg_open_session] by (simp add: submitted_open_session)
next
  assume a: "fg s = Reading lines \<and> lines \<noteq> [] \<and> last lines = []"
  then have st: "step u p s (Fg (Line []) c now) = submit u p c now (butlast lines) s"
    by (simp add: step_reading read_line_def compose_terminate)
  show "let body = strip (join (butlast lines)); s' = step u p s (Fg (Line []) c now)
         in (body = [] \<longrightarrow> s' = s\<lparr>fg := Reading []\<rparr>)
          \<and> (body \<noteq> [] \<longrightarrow> submitted s' = submitted s @ [body])
          \<and> (body \<noteq> [] \<and> c = DbOk \<and> next_id (db s) \<noteq> 0 \<longrightarrow>
                messages (db s') = messages (db s) @ [(next_id (db s), u, p, body, now)]
                \<and> fg s' = Sending (next_id (db s)) now body)"
    unfolding Let_def st
  proof (intro conjI impI)
    assume "strip (join (butlast lines)) = []"
    then show "submit u p c now (butlast lines) s = s\<lparr>fg := Reading []\<rparr>"
      by (rule submit_blank)
  next
    assume b: "strip (join (butlast lines)) \<noteq> []"
    then have "butlast lines \<noteq> []" by (auto simp: strip_Nil)
    with b show "submitted (submit u p c now (butlast lines) s)
        = submitted s @ [strip (join (butlast lines))]"
      by (simp add: submitted_submit)
  next
    assume b: "strip (join (butlast lines)) \<noteq> [] \<and> c = DbOk \<and> next_id (db s) \<noteq> 0"
    then show "messages (db (submit u p c now (butlast lines) s))
        = messages (db s) @ [(next_id (db s), u, p, strip (join (butlast lines)), now)]"
      by (simp add: submit_ok)
    from b show "fg (submit u p c now (butlast lines) s)
        = Sending (next_id (db s)) now (strip (join (butlast lines)))"
      by (simp add: submit_ok)
  qed
qed

theorem C5_composition_witness:
  "submitted (step ''11111111'' ''22222222''
      ((open_session DbOk empty_db ''11111111'' ''22222222'')\<lparr>fg := Reading [''hi'', []]\<rparr>)
      (Fg (Line []) DbOk 7)) = [''hi'']
   \<and> messages (db (step ''11111111'' ''22222222''
      ((open_session DbOk empty_db ''11111111'' ''22222222'')\<lparr>fg := Reading [''hi'', []]\<rparr>)
      (Fg (Line []) DbOk 7))) = [(1, ''11111111'', ''22222222'', ''hi'', 7)]
   \<and> submitted (step ''11111111'' ''22222222''
      ((open_session DbOk empty_db ''11111111'' ''22222222'')\<lparr>fg := Reading ['' '', []]\<rparr>)
      (Fg (Line []) DbOk 7)) = []"
  using C5_composition [where s = "(open_session DbOk empty_db ''11111111'' ''22222222'')\<lparr>fg := Reading [''hi'', []]\<rparr>"
      and lines = "[''hi'', []]" and u = "''11111111''" and p = "''22222222''" and c = DbOk and now = 7]
    C5_composition [where s = "(open_session DbOk empty_db ''11111111'' ''22222222'')\<lparr>fg := Reading ['' '', []]\<rparr>"
      and lines = "['' '', []]" and u = "''11111111''" and p = "''22222222''" and c = DbOk and now = 7]
  by (simp add: eval_tokens Let_def open_session_def fetch_all_simps empty_db_def)

text \<open>
  C6. While no line has been accumulated, the lines \<open>r\<close>, \<open>c\<close> and \<open>=\<close> run the reload,
  clear and quit commands, and the line is not accumulated: after a reload the entry is
  still empty and nothing was submitted, after the answer to the clear prompt the entry
  is empty, and quit sets the stop event and returns. Once a line has been accumulated,
  the same three tokens are appended to the entry like any other line and no command
  runs; entered as the second line after \<open>hi\<close>, the token \<open>r\<close> is part of the one body
  that is submitted.
\<close>

theorem C6_command_tokens:
  "(fg s = Reading lines \<and> lines = [] \<longrightarrow>
        step u p s (Fg (Line ''r'') c now) = reload u p c s
      \<and> fg (reload u p c s) = Reading []
      \<and> submitted (reload u p c s) = submitted s
      \<and> step u p s (Fg (Line ''c'') c now) = s\<lparr>screen := screen s @ [ClearPrompt], fg := Confirming\<rparr>
      \<and> fg (step u p (step u p s (Fg (Line ''c'') c now)) (Fg (Line l) c' now')) = Reading []
      \<and> step u p s (Fg (Line ''='') c now) = s\<lparr>stop_event := True, fg := Returned\<rparr>)
   \<and> (fg s = Reading lines \<and> lines \<noteq> [] \<longrightarrow>
        (\<forall>tok \<in> {''r'', ''c'', ''=''}.
           step u p s (Fg (Line tok) c now) = s\<lparr>fg := Reading (lines @ [tok])\<rparr>))
   \<and> submitted (run u p (open_session c0 d u p)
        [Fg (Line ''hi'') c1 n1, Fg (Line ''r'') c2 n2, Fg (Line []) c3 n3, Fg (Line []) c4 n4])
       = [''hi\<newline>r'']"
proof (intro conjI impI)
  assume a: "fg s = Reading lines \<and> lines = []"
  then have f: "fg s = Reading []" by simp
  show "step u p s (Fg (Line ''r'') c now) = reload u p c s"
    using f by (simp add: step_reading read_line_def compose_reload eval_tokens)
  show "fg (reload u p c s) = Reading []"
    using f by (simp add: reload_fields)
  show "submitted (reload u p c s) = submitted s"
    by (simp add: reload_fields)
  show cl: "step u p s (Fg (Line ''c'') c now) = s\<lparr>screen := screen s @ [ClearPrompt], fg := Confirming\<rparr>"
    using f by (simp add: step_reading read_line_def compose_clear eval_tokens)
  show "fg (step u p (step u p s (Fg (Line ''c'') c now)) (Fg (Line l) c' now')) = Reading []"
    unfolding cl by (simp add: step_confirming confirm_line_fg)
  show "step u p s (Fg (Line ''='') c now) = s\<lparr>stop_event := True, fg := Returned\<rparr>"
    using f by (simp add: step_reading read_line_def compose_quit eval_tokens)
next
  assume a: "fg s = Reading lines \<and> lines \<noteq> []"
  then show "\<forall>tok \<in> {''r'', ''c'', ''=''}.
           step u p s (Fg (Line tok) c now) = s\<lparr>fg := Reading (lines @ [tok])\<rparr>"
    by (simp add: step_reading read_line_def compose_append)
next
  show "submitted (run u p (open_session c0 d u p)
        [Fg (Line ''hi'') c1 n1, Fg (Line ''r'') c2 n2, Fg (Line []) c3 n3, Fg (Line []) c4 n4])
       = [''hi\<newline>r'']"
    by (simp add: run_Cons run_Nil step_reading fg_open_session read_line_def compose_first
        compose_append compose_terminate eval_tokens submitted_submit submitted_open_session)
qed

theorem C6_command_tokens_witness:
  "fg (step ''11111111'' ''22222222'' (open_session DbOk empty_db ''11111111'' ''22222222'')
         (Fg (Line ''='') DbOk 0)) = Returned
   \<and> fg (step ''11111111'' ''22222222'' (open_session DbOk empty_db ''11111111'' ''22222222'')
         (Fg (Line ''c'') DbOk 0)) = Confirming
   \<and> fg (step ''11111111'' ''22222222''
         ((open_session DbOk empty_db ''11111111'' ''22222222'')\<lparr>fg := Reading [''hi'']\<rparr>)
         (Fg (Line ''='') DbOk 0)) = Reading [''hi'', ''='']"
  using C6_command_tokens [where s = "open_session DbOk empty_db ''11111111'' ''22222222''"
      and lines = "[]" and u = "''11111111''" and p = "''22222222''" and c = DbOk and now = 0]
    C6_command_tokens [where s = "(open_session DbOk empty_db ''11111111'' ''22222222'')\<lparr>fg := Reading [''hi'']\<rparr>"
      and lines = "[''hi'']" and u = "''11111111''" and p = "''22222222''" and c = DbOk and now = 0]
  by (simp add: fg_open_session)

text \<open>
  C10. While no line has been accumulated, a line that strips to \<open>r\<close> or \<open>R\<close> runs the
  reload and a line that strips to \<open>c\<close> or \<open>C\<close> opens the clear prompt (these are the
  strings whose lower-case form is \<open>r\<close>, respectively \<open>c\<close>), and a line that strips
  to \<open>=\<close> quits. In each case the line is not accumulated and nothing is submitted.
\<close>

theorem C10_command_recognition:
  "(lower t = ''r'' \<longleftrightarrow> t = ''r'' \<or> t = ''R'')
   \<and> (lower t = ''c'' \<longleftrightarrow> t = ''c'' \<or> t = ''C'')
   \<and> strip '' R '' = ''R'' \<and> strip ''C'' = ''C''
   \<and> (fg s = Reading [] \<and> (strip line = ''r'' \<or> strip line = ''R'') \<longrightarrow>
        step u p s (Fg (Line line) c now) = reload u p c s
      \<and> fg (reload u p c s) = Reading []
      \<and> submitted (reload u p c s) = submitted s
      \<and> db (reload u p c s) = db s)
   \<and> (fg s = Reading [] \<and> (strip line = ''c'' \<or> strip line = ''C'') \<longrightarrow>
        step u p s (Fg (Line line) c now) = s\<lparr>screen := screen s @ [ClearPrompt], fg := Confirming\<rparr>)
   \<and> (fg s = Reading [] \<and> strip line = ''='' \<longrightarrow>
        step u p s (Fg (Line line) c now) = s\<lparr>stop_event := True, fg := Returned\<rparr>)"
proof (intro conjI impI)
  show "lower t = ''r'' \<longleftrightarrow> t = ''r'' \<or> t = ''R''" by (rule lower_eq_r)
  show "lower t = ''c'' \<longleftrightarrow> t = ''c'' \<or> t = ''C''" by (rule lower_eq_c)
  show "strip '' R '' = ''R''" "strip ''C'' = ''C''" by (simp_all add: eval_tokens)
next
  assume a: "fg s = Reading [] \<and> (strip line = ''r'' \<or> strip line = ''R'')"
  then have "lower (strip line) = ''r''" by (simp add: lower_eq_r)
  with a show "step u p s (Fg (Line line) c now) = reload u p c s"
    by (simp add: step_reading read_line_def compose_reload)
  from a show "fg (reload u p c s) = Reading []" by (simp add: reload_fields)
  show "submitted (reload u p c s) = submitted s" by (simp add: reload_fields)
  show "db (reload u p c s) = db s" by (simp add: reload_fields)
next
  assume a: "fg s = Reading [] \<and> (strip line = ''c'' \<or> strip line = ''C'')"
  then have "lower (strip line) = ''c''" by (simp add: lower_eq_c)
  with a show "step u p s (Fg (Line line) c now) = s\<lparr>screen := screen s @ [ClearPrompt], fg := Confirming\<rparr>"
    by (simp add: step_reading read_line_def compose_clear)
next
  assume a: "fg s = Reading [] \<and> strip line = ''=''"
  then show "step u p s (Fg (Line line) c now) = s\<lparr>stop_event := True, fg := Returned\<rparr>"
    by (simp add: step_reading read_line_def compose_quit)
qed

theorem C10_command_recognition_witness:
  "step ''11111111'' ''22222222'' (open_session DbOk empty_db ''11111111'' ''22222222'')
       (Fg (Line '' R '') DbOk 0)
     = reload ''11111111'' ''22222222'' DbOk (open_session DbOk empty_db ''11111111'' ''22222222'')
   \<and> fg (step ''11111111'' ''22222222'' (open_session DbOk empty_db ''11111111'' ''22222222'')
       (Fg (Line ''C'') DbOk 0)) = Confirming
   \<and> fg (step ''11111111'' ''22222222'' (open_session DbOk empty_db ''11111111'' ''22222222'')
       (Fg (Line '' = '') DbOk 0)) = Returned"
proof -
  have e: "strip '' = '' = ''=''" by code_simp
  show ?thesis
    using C10_command_recognition [where s = "open_session DbOk empty_db ''11111111'' ''22222222''"
      and line = "'' R ''" and u = "''11111111''" and p = "''22222222''" and c = DbOk and now = 0]
    C10_command_recognition [where s = "open_session DbOk empty_db ''11111111'' ''22222222''"
      and line = "''C''" and u = "''11111111''" and p = "''22222222''" and c = DbOk and now = 0]
    C10_command_recognition [where s = "open_session DbOk empty_db ''11111111'' ''22222222''"
      and line = "'' = ''" and u = "''11111111''" and p = "''22222222''" and c = DbOk and now = 0]
    by (simp add: fg_open_session eval_tokens e)
qed

text \<open>
  C3. An interrupt or end of input while one line has been accumulated: the loop takes
  it for the line \<open>=\<close>, which is a command only in an empty entry, so \<open>=\<close> is appended
  to the entry, the stop event is not set and the session goes on reading; two
  blank lines then submit the composed line together with the \<open>=\<close>.
\<close>

theorem C3_interrupt_mid_composition:
  "fg (run u p (open_session c0 d u p)
        [Fg (Line ''hello'') c1 n1, Fg (Raises KeyboardInterrupt) c2 n2]) = Reading [''hello'', ''='']
   \<and> fg (run u p (open_session c0 d u p)
        [Fg (Line ''hello'') c1 n1, Fg (Raises EOFError) c2 n2]) = Reading [''hello'', ''='']
   \<and> stop_event (run u p (open_session c0 d u p)
        [Fg (Line ''hello'') c1 n1, Fg (Raises KeyboardInterrupt) c2 n2]) = False
   \<and> submitted (run u p (open_session c0 d u p)
        [Fg (Line ''hello'') c1 n1, Fg (Raises KeyboardInterrupt) c2 n2,
         Fg (Line []) c3 n3, Fg (Line []) c4 n4]) = [''hello\<newline>='']"
  by (simp add: run_Cons run_Nil step_reading fg_open_session read_line_def compose_first
        compose_append compose_terminate eval_hello eval_tokens submitted_submit
        submitted_open_session stop_event_open_session)

section \<open>Facts about single steps\<close>

lemma eof_keeps_reading:
  "fg s = Reading lines \<Longrightarrow> lines \<noteq> [] \<Longrightarrow>
   run u p s (replicate n (Fg (Raises e) c now)) = s\<lparr>fg := Reading (lines @ replicate n ''='')\<rparr>"
proof (induction n arbitrary: s lines)
  case 0
  then show ?case by (simp add: run_Nil)
next
  case (Suc n)
  have "step u p s (Fg (Raises e) c now) = s\<lparr>fg := Reading (lines @ [''=''])\<rparr>"
    using Suc.prems by (simp add: step_reading read_line_def compose_append)
  moreover have "run u p (s\<lparr>fg := Reading (lines @ [''=''])\<rparr>) (replicate n (Fg (Raises e) c now))
      = s\<lparr>fg := Reading (lines @ [''=''])\<rparr>\<lparr>fg := Reading ((lines @ [''='']) @ replicate n ''='')\<rparr>"
    by (rule Suc.IH) simp_all
  ultimately show ?case
    by (simp add: run_Cons replicate_app_Cons_same)
qed

lemma submit_fields:
  "last_id (submit u p c now lines s) = last_id s"
  "poller (submit u p c now lines s) = poller s"
  "poll_log (submit u p c now lines s) = poll_log s"
  "stop_event (submit u p c now lines s) = stop_event s"
  "displayed_ids (submit u p c now lines s) = displayed_ids s"
  by (cases c; simp add: submit_def insert_simps Let_def)+

lemma confirm_fields:
  "last_id (confirm u p c i s) = last_id s"
  "poller (confirm u p c i s) = poller s"
  "poll_log (confirm u p c i s) = poll_log s"
  by (cases c; cases i; simp add: confirm_def clear_simps)+

lemma compose_fields:
  "last_id (compose u p c now lines line s) = last_id s"
  "poller (compose u p c now lines line s) = poller s"
  "poll_log (compose u p c now lines line s) = poll_log s"
  by (simp_all add: compose_def reload_fields submit_fields)

lemma reload_rows_raising_cases:
  "reload_rows_raising rows s = s
   \<or> (\<exists>r \<in> set rows. fst r \<notin> displayed_ids s \<and>
         reload_rows_raising rows s =
           s\<lparr>displayed_ids := insert (fst r) (displayed_ids s),
             stop_event := True, fg := Failed\<rparr>)"
  by (induction rows) auto

lemma reload_raising_cases:
  "reload_raising u p c s = s\<lparr>screen := screen s @ fst (connect_db c)\<rparr>
   \<or> (\<exists>r. fst r \<notin> displayed_ids s \<and>
         reload_raising u p c s =
           s\<lparr>screen := screen s @ fst (connect_db c),
             displayed_ids := insert (fst r) (displayed_ids s),
             stop_event := True, fg := Failed\<rparr>)"
proof -
  obtain pr rows where g: "get_chat_history_since c (db s) u p (last_id s) = (pr, rows)"
    by (cases "get_chat_history_since c (db s) u p (last_id s)")
  have pr: "pr = fst (connect_db c)"
    using since_notice [of c "db s" u p "last_id s"] g by simp
  from reload_rows_raising_cases [of rows "s\<lparr>screen := screen s @ pr\<rparr>"]
  show ?thesis
    by (auto simp: reload_raising_def g pr)
qed

lemma reload_raising_fields:
  "last_id (reload_raising u p c s) = last_id s"
  "poller (reload_raising u p c s) = poller s"
  "poll_log (reload_raising u p c s) = poll_log s"
  "db (reload_raising u p c s) = db s"
  "submitted (reload_raising u p c s) = submitted s"
  "screen (reload_raising u p c s) = screen s @ fst (connect_db c)"
  using reload_raising_cases [of u p c s] by auto

lemma stop_event_reload_raising:
  "stop_event s \<Longrightarrow> stop_event (reload_raising u p c s)"
  using reload_raising_cases [of u p c s] by auto

lemma fg_step_fields:
  assumes "\<not> is_poll e"
  shows "last_id (step u p s e) = last_id s"
    and "poller (step u p s e) = poller s"
    and "poll_log (step u p s e) = poll_log s"
  using assms
  by (cases e; cases "fg s";
      simp add: step_def compose_fields confirm_fields show_sent_def
        reload_raising_fields show_sent_raising_def)+

lemma poll_head_fields:
  "last_id (poll_head u p c s) = last_id s"
  "db (poll_head u p c s) = db s"
  "displayed_ids (poll_head u p c s) = displayed_ids s"
  "fg (poll_head u p c s) = fg s"
  "submitted (poll_head u p c s) = submitted s"
  "stop_event (poll_head u p c s) = stop_event s"
  by (simp_all add: poll_head_def split: prod.splits list.splits)

lemma poll_head_failure:
  "\<not> stop_event s \<Longrightarrow> c \<noteq> DbOk \<Longrightarrow>
   poll_head u p c s =
     s\<lparr>screen := screen s @ fst (connect_db c),
       poll_log := poll_log s @ [PFetch (last_id s), PSleep POLL_INTERVAL],
       poller := Sleeping\<rparr>"
  by (cases c) (simp_all add: poll_head_def fetch_since_simps)

lemma poll_head_no_rows:
  "\<not> stop_event s \<Longrightarrow> snd (get_chat_history_since DbOk (db s) u p (last_id s)) = [] \<Longrightarrow>
   poll_head u p DbOk s =
     s\<lparr>poll_log := poll_log s @ [PFetch (last_id s), PSleep POLL_INTERVAL], poller := Sleeping\<rparr>"
  by (simp add: poll_head_def fetch_since_simps)

lemma poll_head_rows:
  "\<not> stop_event s \<Longrightarrow>
   poll_head u p c s =
     (case snd (get_chat_history_since c (db s) u p (last_id s)) of
        [] \<Rightarrow> s\<lparr>screen := screen s @ fst (connect_db c),
                poll_log := poll_log s @ [PFetch (last_id s), PSleep POLL_INTERVAL],
                poller := Sleeping\<rparr>
      | r # rs \<Rightarrow> s\<lparr>screen := screen s @ fst (connect_db c),
                    poll_log := poll_log s @ [PFetch (last_id s)],
                    poller := Delivering r rs\<rparr>)"
  by (cases c) (simp_all add: poll_head_def fetch_since_simps split: list.splits)

lemma poll_deliver_fields:
  "last_id (poll_deliver u b r rs s) = max (last_id s) (fst r)"
  "db (poll_deliver u b r rs s) = db s"
  "displayed_ids (poll_deliver u b r rs s) = insert (fst r) (displayed_ids s)"
  "fg (poll_deliver u b r rs s) = fg s"
  "submitted (poll_deliver u b r rs s) = submitted s"
  "stop_event (poll_deliver u b r rs s) = stop_event s"
  by (auto simp: poll_deliver_def Let_def max_def split: list.splits)

lemma poll_deliver_ok:
  "poller (poll_deliver u False r rs s) = (case rs of [] \<Rightarrow> Sleeping | r' # rs' \<Rightarrow> Delivering r' rs')"
  "poll_log (poll_deliver u False r rs s) =
     poll_log s @ PCallback r # (case rs of [] \<Rightarrow> [PSleep POLL_INTERVAL] | r' # rs' \<Rightarrow> [])"
  by (simp_all add: poll_deliver_def Let_def split: list.splits)

lemma poll_deliver_poller:
  "poller (poll_deliver u b r rs s) = Sleeping \<or>
   (\<exists>r' rs'. rs = r' # rs' \<and> poller (poll_deliver u b r rs s) = Delivering r' rs')"
  by (auto simp: poll_deliver_def Let_def split: list.splits)

lemma poll_deliver_raise:
  "fst r \<notin> displayed_ids s \<Longrightarrow> poller (poll_deliver u True r rs s) = Sleeping"
  by (simp add: poll_deliver_def Let_def)

lemma poll_deliver_callback:
  "poll_deliver u False r rs s =
     (on_new u r (s\<lparr>last_id := max (last_id s) (fst r)\<rparr>))
       \<lparr>poll_log := poll_log s @ PCallback r #
            (case rs of [] \<Rightarrow> [PSleep POLL_INTERVAL] | r' # rs' \<Rightarrow> []),
        poller := (case rs of [] \<Rightarrow> Sleeping | r' # rs' \<Rightarrow> Delivering r' rs')\<rparr>"
  by (simp add: poll_deliver_def on_new_def Let_def max_def split: list.splits)

lemma step_poll:
  "poller s = AtHead \<Longrightarrow> step u p s (PollHead c) = poll_head u p c s"
  "poller s = Delivering r rs \<Longrightarrow> step u p s (PollDeliver b) = poll_deliver u b r rs s"
  "poller s = Sleeping \<Longrightarrow> step u p s PollWake = s\<lparr>poller := AtHead\<rparr>"
  by (simp_all add: step_def)

lemma step_poll_idle:
  "poller s \<noteq> AtHead \<Longrightarrow> step u p s (PollHead c) = s"
  "\<forall>r rs. poller s \<noteq> Delivering r rs \<Longrightarrow> step u p s (PollDeliver b) = s"
  "poller s \<noteq> Sleeping \<Longrightarrow> step u p s PollWake = s"
  by (cases "poller s"; simp add: step_def)+

section \<open>The poller's cycle\<close>

lemma deliver_all:
  "poller s = Delivering r rs \<Longrightarrow>
   poller (run u p s (replicate (Suc (length rs)) (PollDeliver False))) = Sleeping
   \<and> poll_log (run u p s (replicate (Suc (length rs)) (PollDeliver False)))
       = poll_log s @ map PCallback (r # rs) @ [PSleep POLL_INTERVAL]
   \<and> last_id (run u p s (replicate (Suc (length rs)) (PollDeliver False)))
       = fold max (map fst (r # rs)) (last_id s)"
proof (induction rs arbitrary: r s)
  case Nil
  then show ?case
    by (simp add: run_Cons run_Nil step_poll poll_deliver_ok poll_deliver_fields max.commute)
next
  case (Cons r' rs)
  let ?s1 = "step u p s (PollDeliver False)"
  have s1: "?s1 = poll_deliver u False r (r' # rs) s"
    using Cons.prems by (simp add: step_poll)
  have p1: "poller ?s1 = Delivering r' rs"
    by (simp add: s1 poll_deliver_ok)
  note ih = Cons.IH [OF p1]
  have "run u p s (replicate (Suc (length (r' # rs))) (PollDeliver False))
      = run u p ?s1 (replicate (Suc (length rs)) (PollDeliver False))"
    by (simp add: run_Cons)
  then show ?case
    using ih by (simp add: s1 poll_deliver_ok poll_deliver_fields max.commute)
qed

lemma deliver_all_flags:
  "poller s = Delivering r rs \<Longrightarrow> length bs = Suc (length rs) \<Longrightarrow>
   poller (run u p s (map PollDeliver bs)) = Sleeping"
proof (induction bs arbitrary: r rs s)
  case Nil
  then show ?case by simp
next
  case (Cons b bs)
  let ?s1 = "step u p s (PollDeliver b)"
  have s1: "?s1 = poll_deliver u b r rs s"
    using Cons.prems by (simp add: step_poll)
  from poll_deliver_poller [of u b r rs s]
  show ?case
  proof
    assume sl: "poller (poll_deliver u b r rs s) = Sleeping"
    have idle: "\<And>t bs'. poller t = Sleeping \<Longrightarrow> run u p t (map PollDeliver bs') = t"
    proof -
      fix t :: state and bs'
      assume "poller t = Sleeping"
      then show "run u p t (map PollDeliver bs') = t"
        by (induction bs') (simp_all add: run_Nil run_Cons step_poll_idle)
    qed
    show ?thesis
      using sl by (simp add: run_Cons s1 idle)
  next
    assume "\<exists>r' rs'. rs = r' # rs' \<and> poller (poll_deliver u b r rs s) = Delivering r' rs'"
    then obtain r' rs' where rs: "rs = r' # rs'"
      and d: "poller (poll_deliver u b r rs s) = Delivering r' rs'" by blast
    have "length bs = Suc (length rs')" using Cons.prems rs by simp
    from Cons.IH [of ?s1 r' rs'] d this show ?thesis
      by (simp add: run_Cons s1)
  qed
qed

lemma poll_deliver_any:
  "poller (poll_deliver u b r rs s) =
     (if b \<and> fst r \<notin> displayed_ids s then Sleeping
      else case rs of [] \<Rightarrow> Sleeping | r' # rs' \<Rightarrow> Delivering r' rs')"
  "poll_log (poll_deliver u b r rs s) =
     poll_log s @ PCallback r #
       (if (b \<and> fst r \<notin> displayed_ids s) \<or> rs = [] then [PSleep POLL_INTERVAL] else [])"
  by (simp_all add: poll_deliver_def Let_def split: list.splits)

lemma poll_deliver_raised:
  "fst r \<notin> displayed_ids s \<Longrightarrow>
   poll_deliver u True r rs s =
     s\<lparr>last_id := max (last_id s) (fst r),
       displayed_ids := insert (fst r) (displayed_ids s),
       poll_log := poll_log s @ [PCallback r, PSleep POLL_INTERVAL],
       poller := Sleeping\<rparr>"
  by (simp add: poll_deliver_def Let_def max_def)

lemma deliver_idle: "poller s = Sleeping \<Longrightarrow> run u p s (map PollDeliver bs) = s"
  by (induction bs) (simp_all add: run_Nil run_Cons step_poll_idle)

lemma deliver_flags:
  "poller s = Delivering r rs \<Longrightarrow> length bs = Suc (length rs) \<Longrightarrow>
   poller (run u p s (map PollDeliver bs)) = Sleeping
   \<and> poll_log (run u p s (map PollDeliver bs))
       = poll_log s @ map PCallback (delivered (displayed_ids s) (zip bs (r # rs)))
           @ [PSleep POLL_INTERVAL]
   \<and> last_id (run u p s (map PollDeliver bs))
       = fold max (map fst (delivered (displayed_ids s) (zip bs (r # rs)))) (last_id s)"
proof (induction bs arbitrary: r rs s)
  case Nil
  then show ?case by simp
next
  case (Cons b bs)
  let ?s1 = "step u p s (PollDeliver b)"
  have s1: "?s1 = poll_deliver u b r rs s"
    using Cons.prems by (simp add: step_poll)
  have run: "run u p s (map PollDeliver (b # bs)) = run u p ?s1 (map PollDeliver bs)"
    by (simp add: run_Cons)
  show ?case
  proof (cases "b \<and> fst r \<notin> displayed_ids s")
    case True
    have "poller ?s1 = Sleeping"
      unfolding s1 using True by (simp add: poll_deliver_any)
    then have "run u p ?s1 (map PollDeliver bs) = ?s1" by (rule deliver_idle)
    then have e: "run u p s (map PollDeliver (b # bs)) = poll_deliver u b r rs s"
      by (simp only: run s1)
    show ?thesis
      unfolding e using True
      by (simp add: poll_deliver_any poll_deliver_fields max.commute)
  next
    case False
    show ?thesis
    proof (cases rs)
      case Nil
      then have "bs = []" using Cons.prems by simp
      then have e: "run u p s (map PollDeliver (b # bs)) = poll_deliver u b r rs s"
        by (simp add: run_Cons run_Nil s1)
      show ?thesis
        unfolding e using False Nil \<open>bs = []\<close>
        by (auto simp: poll_deliver_any poll_deliver_fields max.commute)
    next
      case (Cons r' rs')
      have p1: "poller ?s1 = Delivering r' rs'"
        unfolding s1 using False Cons by (auto simp: poll_deliver_any)
      have len: "length bs = Suc (length rs')"
        using Cons.prems(2) Cons by simp
      have d1: "displayed_ids ?s1 = insert (fst r) (displayed_ids s)"
        by (simp add: s1 poll_deliver_fields)
      have l1: "last_id ?s1 = max (last_id s) (fst r)"
        by (simp add: s1 poll_deliver_fields)
      have g1: "poll_log ?s1 = poll_log s @ [PCallback r]"
        unfolding s1 using False Cons by (auto simp: poll_deliver_any)
      from Cons.IH [OF p1 len]
      show ?thesis
        using False Cons
        by (auto simp: run_Cons d1 l1 g1 max.commute)
    qed
  qed
qed

lemma delivered_cases:
  "length bs = length rows \<Longrightarrow>
   delivered D (zip bs rows) = rows
   \<or> (\<exists>i < length rows. bs ! i \<and> delivered D (zip bs rows) = take (Suc i) rows)"
proof (induction rows arbitrary: bs D)
  case Nil
  then show ?case by simp
next
  case (Cons r rows)
  then obtain b bs' where bs: "bs = b # bs'" and len: "length bs' = length rows"
    by (cases bs) auto
  show ?case
  proof (cases "b \<and> fst r \<notin> D")
    case True
    then have "bs ! 0 \<and> delivered D (zip bs (r # rows)) = take (Suc 0) (r # rows)"
      by (simp add: bs)
    then show ?thesis by blast
  next
    case False
    from Cons.IH [OF len, of "insert (fst r) D"]
    show ?thesis
    proof
      assume "delivered (insert (fst r) D) (zip bs' rows) = rows"
      then show ?thesis using False by (auto simp: bs)
    next
      assume "\<exists>i < length rows. bs' ! i \<and>
        delivered (insert (fst r) D) (zip bs' rows) = take (Suc i) rows"
      then obtain i where i: "i < length rows" "bs' ! i"
        "delivered (insert (fst r) D) (zip bs' rows) = take (Suc i) rows" by blast
      then have "Suc i < length (r # rows) \<and> bs ! Suc i
          \<and> delivered D (zip bs (r # rows)) = take (Suc (Suc i)) (r # rows)"
        using False by (auto simp: bs)
      then show ?thesis by blast
    qed
  qed
qed

lemma delivered_no_raise:
  "length bs = length rows \<Longrightarrow> \<forall>b \<in> set bs. \<not> b \<Longrightarrow> delivered D (zip bs rows) = rows"
  using delivered_cases [of bs rows D] by (auto simp: in_set_conv_nth)

lemma fold_max_Max: "fold max xs (x::int) = Max (set (x # xs))"
  by (rule Max.set_eq_fold [symmetric])

text \<open>
  C4 as amended. \<open>POLL_INTERVAL\<close> is one second. An iteration of the poller's loop
  that finds the stop event unset first calls \<open>get_chat_history_since\<close> with the
  current \<open>last_id\<close>; then it walks the returned rows in the order returned, which is
  ascending by id, and for each row first advances \<open>last_id\<close> to the maximum of itself
  and the row's id and then calls the callback on it, until the rows are used up or a
  callback raises; only then does it sleep for \<open>POLL_INTERVAL\<close>. The rows reached are
  all rows when no callback raises, and otherwise the rows up to and including one
  whose callback raised; at the end \<open>last_id\<close> is the maximum of its old value and the
  ids of the rows reached. The callback runs on the state in which \<open>last_id\<close> has
  already been advanced.
\<close>

theorem C4_iteration_order:
  "POLL_INTERVAL = 1
   \<and> (poller s = AtHead \<and> \<not> stop_event s
        \<and> length bs = length (snd (get_chat_history_since c (db s) u p (last_id s))) \<longrightarrow>
        (let rows = snd (get_chat_history_since c (db s) u p (last_id s));
             reached = delivered (displayed_ids s) (zip bs rows);
             s' = run u p s (PollHead c # map PollDeliver bs)
         in poll_log s' = poll_log s @ PFetch (last_id s) # map PCallback reached @ [PSleep POLL_INTERVAL]
          \<and> sorted (map fst rows)
          \<and> (reached = rows \<or> (\<exists>i < length rows. bs ! i \<and> reached = take (Suc i) rows))
          \<and> ((\<forall>b \<in> set bs. \<not> b) \<longrightarrow> reached = rows)
          \<and> last_id s' = Max (set (last_id s # map fst reached))
          \<and> poller s' = Sleeping
          \<and> poller (step u p s' PollWake) = AtHead))
   \<and> (poller s = Delivering r rs \<longrightarrow>
        last_id (step u p s (PollDeliver b)) = max (last_id s) (fst r)
      \<and> step u p s (PollDeliver False) =
          (on_new u r (s\<lparr>last_id := max (last_id s) (fst r)\<rparr>))
            \<lparr>poll_log := poll_log s @ PCallback r #
                 (case rs of [] \<Rightarrow> [PSleep POLL_INTERVAL] | r' # rs' \<Rightarrow> []),
             poller := (case rs of [] \<Rightarrow> Sleeping | r' # rs' \<Rightarrow> Delivering r' rs')\<rparr>)"
proof (intro conjI impI)
  show "POLL_INTERVAL = 1" by (simp add: POLL_INTERVAL_def)
next
  assume a: "poller s = AtHead \<and> \<not> stop_event s
        \<and> length bs = length (snd (get_chat_history_since c (db s) u p (last_id s)))"
  define rows where "rows = snd (get_chat_history_since c (db s) u p (last_id s))"
  define reached where "reached = delivered (displayed_ids s) (zip bs rows)"
  define s' where "s' = run u p s (PollHead c # map PollDeliver bs)"
  have len: "length bs = length rows" using a by (simp add: rows_def)
  have h: "step u p s (PollHead c) = poll_head u p c s"
    using a by (simp add: step_poll)
  have srt: "sorted (map fst rows)"
    unfolding rows_def by (rule since_sorted)
  have shape: "reached = rows \<or> (\<exists>i < length rows. bs ! i \<and> reached = take (Suc i) rows)"
    unfolding reached_def by (rule delivered_cases [OF len])
  have quiet: "(\<forall>b \<in> set bs. \<not> b) \<longrightarrow> reached = rows"
    unfolding reached_def using delivered_no_raise [OF len] by blast
  have main: "poll_log s' = poll_log s @ PFetch (last_id s) # map PCallback reached @ [PSleep POLL_INTERVAL]
      \<and> last_id s' = Max (set (last_id s # map fst reached)) \<and> poller s' = Sleeping"
  proof (cases rows)
    case Nil
    then have "poll_head u p c s = s\<lparr>screen := screen s @ fst (connect_db c),
                poll_log := poll_log s @ [PFetch (last_id s), PSleep POLL_INTERVAL],
                poller := Sleeping\<rparr>"
      using a by (simp add: poll_head_rows rows_def)
    moreover have "bs = []" using len Nil by simp
    ultimately show ?thesis
      using Nil by (simp add: s'_def reached_def run_Cons run_Nil h)
  next
    case (Cons r rs)
    then have ph: "poll_head u p c s = s\<lparr>screen := screen s @ fst (connect_db c),
                    poll_log := poll_log s @ [PFetch (last_id s)],
                    poller := Delivering r rs\<rparr>"
      using a by (simp add: poll_head_rows rows_def)
    then have d: "poller (poll_head u p c s) = Delivering r rs" by simp
    have len': "length bs = Suc (length rs)" using len Cons by simp
    have s'eq: "s' = run u p (poll_head u p c s) (map PollDeliver bs)"
      by (simp add: s'_def run_Cons h)
    have reached': "delivered (displayed_ids (poll_head u p c s)) (zip bs (r # rs)) = reached"
      by (simp only: reached_def Cons poll_head_fields)
    from deliver_flags [OF d len', of u p]
    have 1: "poller s' = Sleeping"
      and 2: "poll_log s' = poll_log (poll_head u p c s) @ map PCallback reached @ [PSleep POLL_INTERVAL]"
      and 3: "last_id s' = fold max (map fst reached) (last_id (poll_head u p c s))"
      unfolding s'eq reached' by blast+
    from 3 have "last_id s' = fold max (map fst reached) (last_id s)"
      by (simp only: poll_head_fields)
    then have "last_id s' = Max (set (last_id s # map fst reached))"
      by (simp only: fold_max_Max)
    moreover from 2 have "poll_log s' = poll_log s @ PFetch (last_id s) # map PCallback reached @ [PSleep POLL_INTERVAL]"
      by (simp add: ph)
    ultimately show ?thesis using 1 by simp
  qed
  then have "poller (step u p s' PollWake) = AtHead"
    by (simp add: step_poll)
  with main srt shape quiet
  show "let rows = snd (get_chat_history_since c (db s) u p (last_id s));
             reached = delivered (displayed_ids s) (zip bs rows);
             s' = run u p s (PollHead c # map PollDeliver bs)
         in poll_log s' = poll_log s @ PFetch (last_id s) # map PCallback reached @ [PSleep POLL_INTERVAL]
          \<and> sorted (map fst rows)
          \<and> (reached = rows \<or> (\<exists>i < length rows. bs ! i \<and> reached = take (Suc i) rows))
          \<and> ((\<forall>b \<in> set bs. \<not> b) \<longrightarrow> reached = rows)
          \<and> last_id s' = Max (set (last_id s # map fst reached))
          \<and> poller s' = Sleeping
          \<and> poller (step u p s' PollWake) = AtHead"
    unfolding Let_def rows_def [symmetric] reached_def [symmetric] s'_def [symmetric] by blast
next
  assume d: "poller s = Delivering r rs"
  then show "last_id (step u p s (PollDeliver b)) = max (last_id s) (fst r)"
    by (simp add: step_poll poll_deliver_fields)
  from d show "step u p s (PollDeliver False) =
          (on_new u r (s\<lparr>last_id := max (last_id s) (fst r)\<rparr>))
            \<lparr>poll_log := poll_log s @ PCallback r #
                 (case rs of [] \<Rightarrow> [PSleep POLL_INTERVAL] | r' # rs' \<Rightarrow> []),
             poller := (case rs of [] \<Rightarrow> Sleeping | r' # rs' \<Rightarrow> Delivering r' rs')\<rparr>"
    by (simp add: step_poll poll_deliver_callback)
qed

lemma fresh_eq:
  "fresh = \<lparr>db = empty_db, displayed_ids = {}, last_id = 0, stop_event = False,
             poller = AtHead, poll_log = [], fg = Reading [], submitted = [],
             screen = [NoHistory]\<rparr>"
  by (simp add: open_session_def fetch_all_simps empty_db_def)

text \<open>
  The first thing the poller of a freshly opened session does is fetch; no sleep comes
  before it.
\<close>

theorem C4_sleep_first_counterexample:
  "poll_log (step alice bob fresh (PollHead DbOk)) = [PFetch 0, PSleep POLL_INTERVAL]
   \<and> hd (poll_log (step alice bob fresh (PollHead DbOk))) \<noteq> PSleep POLL_INTERVAL"
  unfolding fresh_eq by (simp add: step_def poll_head_def fetch_since_simps empty_db_def)

theorem C4_iteration_order_witness:
  "poll_log (run alice bob
      (run alice bob fresh [RemoteInsert bob alice ''yo'' 3, RemoteInsert bob alice ''again'' 4])
      [PollHead DbOk, PollDeliver False, PollDeliver False])
     = [PFetch 0, PCallback (1, bob, ''yo'', 3), PCallback (2, bob, ''again'', 4),
        PSleep POLL_INTERVAL]
   \<and> last_id (run alice bob
      (run alice bob fresh [RemoteInsert bob alice ''yo'' 3, RemoteInsert bob alice ''again'' 4])
      [PollHead DbOk, PollDeliver False, PollDeliver False]) = 2
   \<and> poll_log (run alice bob
      (run alice bob fresh [RemoteInsert bob alice ''yo'' 3, RemoteInsert bob alice ''again'' 4])
      [PollHead DbOk, PollDeliver True, PollDeliver False])
     = [PFetch 0, PCallback (1, bob, ''yo'', 3), PSleep POLL_INTERVAL]
   \<and> last_id (run alice bob
      (run alice bob fresh [RemoteInsert bob alice ''yo'' 3, RemoteInsert bob alice ''again'' 4])
      [PollHead DbOk, PollDeliver True, PollDeliver False]) = 1"
proof -
  let ?s = "run alice bob fresh [RemoteInsert bob alice ''yo'' 3, RemoteInsert bob alice ''again'' 4]"
  have s: "?s = \<lparr>db = \<lparr>messages = [(1, bob, alice, ''yo'', 3), (2, bob, alice, ''again'', 4)],
                      next_id = 3\<rparr>,
             displayed_ids = {}, last_id = 0, stop_event = False,
             poller = AtHead, poll_log = [], fg = Reading [], submitted = [],
             screen = [NoHistory]\<rparr>"
    unfolding fresh_eq
    by (simp add: run_Cons run_Nil step_def insert_simps empty_db_def)
  have rows: "snd (get_chat_history_since DbOk (db ?s) alice bob (last_id ?s))
      = [(1, bob, ''yo'', 3), (2, bob, ''again'', 4)]"
    unfolding s by (simp add: fetch_since_simps in_conversation_def select_row_def)
  have hyp: "\<And>bs. length bs = 2 \<Longrightarrow> poller ?s = AtHead \<and> \<not> stop_event ?s
      \<and> length bs = length (snd (get_chat_history_since DbOk (db ?s) alice bob (last_id ?s)))"
    unfolding rows unfolding s by simp
  have d0: "displayed_ids ?s = {}" and l0: "last_id ?s = 0" and g0: "poll_log ?s = []"
    unfolding s by simp_all
  from C4_iteration_order [where s = ?s and u = alice and p = bob and c = DbOk
      and bs = "[False, False]"] hyp [of "[False, False]"]
  have a: "poll_log (run alice bob ?s (PollHead DbOk # map PollDeliver [False, False]))
      = poll_log ?s @ PFetch (last_id ?s) #
          map PCallback (delivered (displayed_ids ?s) (zip [False, False]
            (snd (get_chat_history_since DbOk (db ?s) alice bob (last_id ?s)))))
          @ [PSleep POLL_INTERVAL]
    \<and> last_id (run alice bob ?s (PollHead DbOk # map PollDeliver [False, False]))
      = Max (set (last_id ?s # map fst (delivered (displayed_ids ?s) (zip [False, False]
            (snd (get_chat_history_since DbOk (db ?s) alice bob (last_id ?s)))))))"
    unfolding Let_def by simp
  from C4_iteration_order [where s = ?s and u = alice and p = bob and c = DbOk
      and bs = "[True, False]"] hyp [of "[True, False]"]
  have b: "poll_log (run alice bob ?s (PollHead DbOk # map PollDeliver [True, False]))
      = poll_log ?s @ PFetch (last_id ?s) #
          map PCallback (delivered (displayed_ids ?s) (zip [True, False]
            (snd (get_chat_history_since DbOk (db ?s) alice bob (last_id ?s)))))
          @ [PSleep POLL_INTERVAL]
    \<and> last_id (run alice bob ?s (PollHead DbOk # map PollDeliver [True, False]))
      = Max (set (last_id ?s # map fst (delivered (displayed_ids ?s) (zip [True, False]
            (snd (get_chat_history_since DbOk (db ?s) alice bob (last_id ?s)))))))"
    unfolding Let_def by simp
  have rows0: "snd (get_chat_history_since DbOk (db ?s) alice bob 0)
      = [(1, bob, ''yo'', 3), (2, bob, ''again'', 4)]"
    using rows l0 by simp
  from a b show ?thesis
    unfolding d0 l0 g0 by (simp add: rows0)
qed

section \<open>When the poller leaves its loop\<close>

lemma stop_event_submit_compose:
  "stop_event s \<Longrightarrow> stop_event (compose u p c now lines line s)"
  by (simp add: compose_def reload_fields submit_fields)

lemma stop_event_confirm: "stop_event s \<Longrightarrow> stop_event (confirm u p c i s)"
  by (cases c; cases i; simp add: confirm_def clear_simps)

lemma stop_event_step: "stop_event s \<Longrightarrow> stop_event (step u p s e)"
proof (cases e)
  case (Fg i c now)
  assume "stop_event s"
  then show ?thesis
    by (cases "fg s") (simp_all add: Fg step_def stop_event_submit_compose stop_event_confirm)
next
  case FgShow
  assume "stop_event s"
  then show ?thesis by (cases "fg s") (simp_all add: FgShow step_def show_sent_def)
next
  case (FgRaise i c now)
  assume "stop_event s"
  then show ?thesis
    by (cases "fg s")
       (simp_all add: FgRaise step_def stop_event_submit_compose stop_event_confirm
          stop_event_reload_raising)
next
  case FgShowRaise
  assume "stop_event s"
  then show ?thesis by (cases "fg s") (simp_all add: FgShowRaise step_def show_sent_raising_def)
next
  case (PollHead c)
  assume "stop_event s"
  then show ?thesis by (cases "poller s") (simp_all add: PollHead step_def poll_head_fields)
next
  case (PollDeliver b)
  assume "stop_event s"
  then show ?thesis by (cases "poller s") (simp_all add: PollDeliver step_def poll_deliver_fields)
next
  case PollWake
  assume "stop_event s"
  then show ?thesis by (cases "poller s") (simp_all add: PollWake step_def)
next
  case (RemoteInsert f t x n)
  assume "stop_event s"
  then show ?thesis by (simp add: RemoteInsert step_def)
qed

lemma stop_event_run: "stop_event s \<Longrightarrow> stop_event (run u p s evs)"
  by (induction evs arbitrary: s) (simp_all add: run_Nil run_Cons stop_event_step)

lemma poll_head_exit: "poller (poll_head u p c s) = Exited \<longleftrightarrow> stop_event s"
  by (simp add: poll_head_def split: prod.splits list.splits)

lemma poll_deliver_no_exit: "poller (poll_deliver u b r rs s) \<noteq> Exited"
  using poll_deliver_poller [of u b r rs s] by auto

lemma exit_step:
  "poller (step u p s e) = Exited \<longleftrightarrow>
     poller s = Exited \<or> (poller s = AtHead \<and> stop_event s \<and> (\<exists>c. e = PollHead c))"
proof (cases "is_poll e")
  case False
  then have "poller (step u p s e) = poller s" by (rule fg_step_fields)
  moreover have "\<not> (\<exists>c. e = PollHead c)" using False by auto
  ultimately show ?thesis by simp
next
  case True
  then show ?thesis
    by (cases e; cases "poller s")
       (simp_all add: step_def poll_head_exit poll_deliver_no_exit)
qed

lemma exit_run:
  "poller (run u p s evs) = Exited \<Longrightarrow> poller s = Exited \<or> stop_event (run u p s evs)"
proof (induction evs arbitrary: s)
  case Nil
  then show ?case by (simp add: run_Nil)
next
  case (Cons e evs)
  then have "poller (step u p s e) = Exited \<or> stop_event (run u p s (e # evs))"
    by (simp add: run_Cons)
  then show ?case
  proof
    assume "poller (step u p s e) = Exited"
    then have "poller s = Exited \<or> stop_event s" by (auto simp: exit_step)
    then show ?thesis using stop_event_run [of s u p "e # evs"] by auto
  qed simp
qed

text \<open>
  The partner has written row 1 and the poller has fetched it. When the callback raises
  on that row, the cycle has not passed for one without new messages: the watermark is
  1 and id 1 is in the registry, though nothing was rendered, and the next fetch no
  longer returns the row. After a cycle whose fetch fails, the watermark is 0, the
  registry is empty and the next fetch returns the row.
\<close>

theorem C9_callback_exception_counterexample:
  "last_id (run alice bob fresh
      [RemoteInsert bob alice ''yo'' 3, PollHead DbOk, PollDeliver True]) = 1
   \<and> displayed_ids (run alice bob fresh
      [RemoteInsert bob alice ''yo'' 3, PollHead DbOk, PollDeliver True]) = {1}
   \<and> rendered_ids (screen (run alice bob fresh
      [RemoteInsert bob alice ''yo'' 3, PollHead DbOk, PollDeliver True])) = []
   \<and> rendered_ids (screen (run alice bob fresh
      [RemoteInsert bob alice ''yo'' 3, PollHead DbOk, PollDeliver True,
       PollWake, PollHead DbOk])) = []
   \<and> poller (run alice bob fresh
      [RemoteInsert bob alice ''yo'' 3, PollHead DbOk, PollDeliver True,
       PollWake, PollHead DbOk]) = Sleeping
   \<and> last_id (run alice bob fresh
      [RemoteInsert bob alice ''yo'' 3, PollHead (QueryError ''boom'')]) = 0
   \<and> displayed_ids (run alice bob fresh
      [RemoteInsert bob alice ''yo'' 3, PollHead (QueryError ''boom'')]) = {}
   \<and> rendered_ids (screen (run alice bob fresh
      [RemoteInsert bob alice ''yo'' 3, PollHead (QueryError ''boom''),
       PollWake, PollHead DbOk, PollDeliver False])) = [1]"
  unfolding fresh_eq
  by (simp add: run_Cons run_Nil step_def insert_simps fetch_since_simps empty_db_def
      in_conversation_def select_row_def poll_head_def poll_deliver_def Let_def on_new_def
      render_def)

text \<open>
  C9 as amended. A poll cycle whose fetch fails (no connection, or an exception inside
  \<open>get_chat_history_since\<close>) leaves watermark, registry and store as they were, logs
  the fetch and goes to sleep, exactly as a cycle whose fetch returns no rows does
  (a failed connection also prints the connection notice). An exception escaping the
  callback is swallowed as well and never ends the loop: the thread leaves the rows
  still to come, sleeps and goes on with its next iteration; what the cycle did up to
  the exception stays (the watermark advanced to the row, the row's id in the
  registry), the cycle is not undone. A step makes the poller leave its loop if and
  only if that step is its loop test and the stop event is set; so on every schedule a
  poller that has left its loop had the stop event set, and the stop event, once set,
  stays set.
\<close>

theorem C9_poller_survives_failures:
  "(poller s = AtHead \<and> \<not> stop_event s \<and> c \<noteq> DbOk \<longrightarrow>
      step u p s (PollHead c) =
        s\<lparr>screen := screen s @ fst (connect_db c),
          poll_log := poll_log s @ [PFetch (last_id s), PSleep POLL_INTERVAL],
          poller := Sleeping\<rparr>
      \<and> poller (step u p (step u p s (PollHead c)) PollWake) = AtHead)
   \<and> (poller s = AtHead \<and> \<not> stop_event s
        \<and> snd (get_chat_history_since DbOk (db s) u p (last_id s)) = [] \<longrightarrow>
      step u p s (PollHead DbOk) =
        s\<lparr>poll_log := poll_log s @ [PFetch (last_id s), PSleep POLL_INTERVAL],
          poller := Sleeping\<rparr>)
   \<and> (poller s = Delivering r rs \<longrightarrow>
        poller (step u p s (PollDeliver True)) \<noteq> Exited
      \<and> (fst r \<notin> displayed_ids s \<longrightarrow>
            step u p s (PollDeliver True) =
              s\<lparr>last_id := max (last_id s) (fst r),
                displayed_ids := insert (fst r) (displayed_ids s),
                poll_log := poll_log s @ [PCallback r, PSleep POLL_INTERVAL],
                poller := Sleeping\<rparr>
          \<and> poller (step u p s (PollDeliver True)) = Sleeping
          \<and> poller (step u p (step u p s (PollDeliver True)) PollWake) = AtHead))
   \<and> (poller (step u p s e) = Exited \<longleftrightarrow>
        poller s = Exited \<or> (poller s = AtHead \<and> stop_event s \<and> (\<exists>c'. e = PollHead c')))
   \<and> (poller (run u p s evs) = Exited \<longrightarrow> poller s = Exited \<or> stop_event (run u p s evs))
   \<and> (stop_event s \<longrightarrow> stop_event (run u p s evs))"
proof (intro conjI impI)
  assume a: "poller s = AtHead \<and> \<not> stop_event s \<and> c \<noteq> DbOk"
  then show f: "step u p s (PollHead c) =
        s\<lparr>screen := screen s @ fst (connect_db c),
          poll_log := poll_log s @ [PFetch (last_id s), PSleep POLL_INTERVAL],
          poller := Sleeping\<rparr>"
    by (simp add: step_poll poll_head_failure)
  show "poller (step u p (step u p s (PollHead c)) PollWake) = AtHead"
    unfolding f by (simp add: step_poll)
next
  assume "poller s = AtHead \<and> \<not> stop_event s
        \<and> snd (get_chat_history_since DbOk (db s) u p (last_id s)) = []"
  then show "step u p s (PollHead DbOk) =
        s\<lparr>poll_log := poll_log s @ [PFetch (last_id s), PSleep POLL_INTERVAL],
          poller := Sleeping\<rparr>"
    by (simp add: step_poll poll_head_no_rows)
next
  assume d: "poller s = Delivering r rs"
  then show "poller (step u p s (PollDeliver True)) \<noteq> Exited"
    by (simp add: step_poll poll_deliver_no_exit)
  assume n: "fst r \<notin> displayed_ids s"
  with d show st: "step u p s (PollDeliver True) =
              s\<lparr>last_id := max (last_id s) (fst r),
                displayed_ids := insert (fst r) (displayed_ids s),
                poll_log := poll_log s @ [PCallback r, PSleep POLL_INTERVAL],
                poller := Sleeping\<rparr>"
    by (simp add: step_poll poll_deliver_raised)
  then show sl: "poller (step u p s (PollDeliver True)) = Sleeping"
    by simp
  then show "poller (step u p (step u p s (PollDeliver True)) PollWake) = AtHead"
    by (simp add: step_poll)
next
  show "poller (step u p s e) = Exited \<longleftrightarrow>
        poller s = Exited \<or> (poller s = AtHead \<and> stop_event s \<and> (\<exists>c'. e = PollHead c'))"
    by (rule exit_step)
next
  assume "poller (run u p s evs) = Exited"
  then show "poller s = Exited \<or> stop_event (run u p s evs)" by (rule exit_run)
next
  assume "stop_event s"
  then show "stop_event (run u p s evs)" by (rule stop_event_run)
qed

theorem C9_poller_survives_failures_witness:
  "poller (step alice bob fresh (PollHead (NoConnection ''timeout''))) = Sleeping
   \<and> last_id (step alice bob fresh (PollHead (NoConnection ''timeout''))) = 0
   \<and> poller (step alice bob fresh (PollHead (QueryError ''boom''))) = Sleeping
   \<and> poller (run alice bob (step alice bob fresh (RemoteInsert bob alice ''yo'' 3))
        [PollHead DbOk, PollDeliver True]) = Sleeping
   \<and> last_id (run alice bob (step alice bob fresh (RemoteInsert bob alice ''yo'' 3))
        [PollHead DbOk, PollDeliver True]) = 1
   \<and> poller (run alice bob fresh [Fg (Line ''='') DbOk 0, PollHead DbOk]) = Exited"
  using C9_poller_survives_failures [where s = fresh and u = alice and p = bob
      and c = "NoConnection ''timeout''" and e = "PollHead DbOk" and evs = "[]"]
    C9_poller_survives_failures [where s = fresh and u = alice and p = bob
      and c = "QueryError ''boom''" and e = "PollHead DbOk" and evs = "[]"]
    C9_poller_survives_failures [where
      s = "step alice bob (step alice bob fresh (RemoteInsert bob alice ''yo'' 3)) (PollHead DbOk)"
      and u = alice and p = bob and c = "DbOk" and e = "PollHead DbOk" and evs = "[]"
      and r = "(1, bob, ''yo'', 3)" and rs = "[]"]
    C9_poller_survives_failures [where
      s = "step alice bob fresh (Fg (Line ''='') DbOk 0)"
      and u = alice and p = bob and c = "DbOk" and e = "PollHead DbOk" and evs = "[]"]
  unfolding fresh_eq
  by (simp add: run_Cons run_Nil step_def insert_simps fetch_since_simps empty_db_def in_conversation_def
      select_row_def poll_head_def compose_def read_line_def eval_tokens lower_quit
      poll_deliver_def Let_def on_new_def)

section \<open>The watermark\<close>

lemma last_id_step_poll:
  "is_poll e \<Longrightarrow> last_id s \<le> last_id (step u p s e)"
  by (cases e; cases "poller s") (simp_all add: step_def poll_head_fields poll_deliver_fields)

lemma last_id_mono_step: "last_id s \<le> last_id (step u p s e)"
  by (cases "is_poll e") (simp_all add: last_id_step_poll fg_step_fields)

lemma last_id_mono_run: "last_id s \<le> last_id (run u p s evs)"
proof (induction evs arbitrary: s)
  case Nil
  show ?case by (simp add: run_Nil)
next
  case (Cons e evs)
  have "last_id s \<le> last_id (step u p s e)" by (rule last_id_mono_step)
  also have "\<dots> \<le> last_id (run u p (step u p s e) evs)" by (rule Cons.IH)
  finally show ?case by (simp add: run_Cons)
qed

lemma fold_history_watermark:
  "last_id (fold (history_step u) h s) = fold max (map fst h) (last_id s)"
  by (induction h arbitrary: s) (simp_all add: history_step_def max.commute)

lemma fold_history_rendered:
  "rendered_ids (screen (fold (history_step u) h s)) = rendered_ids (screen s) @ map fst h"
proof (induction h arbitrary: s)
  case Nil
  show ?case by simp
next
  case (Cons r h)
  have "rendered_ids [render u r] = [fst r]"
    by (cases r) (simp add: render_def)
  then have "rendered_ids (screen (history_step u r s)) = rendered_ids (screen s) @ [fst r]"
    by (simp add: history_step_def rendered_ids_append)
  moreover have "fold (history_step u) (r # h) s = fold (history_step u) h (history_step u r s)"
    by simp
  ultimately show ?case
    by (simp only: Cons.IH) simp
qed

lemma fold_history_poll_log: "poll_log (fold (history_step u) h s) = poll_log s"
  by (induction h arbitrary: s) (simp_all add: history_step_def)

lemma open_session_watermark:
  "last_id (open_session c d u p) = Max (set (0 # map fst (snd (get_chat_history_all c d u p))))"
proof -
  obtain pr h where g: "get_chat_history_all c d u p = (pr, h)"
    by (cases "get_chat_history_all c d u p")
  have "last_id (open_session c d u p) = fold max (map fst h) 0"
    by (cases "h = []") (simp_all add: open_session_def g Let_def fold_history_watermark)
  then show ?thesis by (simp only: fold_max_Max g snd_conv)
qed

lemma open_session_rendered:
  "rendered_ids (screen (open_session c d u p)) = map fst (snd (get_chat_history_all c d u p))"
proof -
  have "fst (get_chat_history_all c d u p) = fst (connect_db c)"
    by (cases c) (simp_all add: fetch_all_simps)
  then show ?thesis
    by (auto simp: open_session_def Let_def fold_history_rendered rendered_ids_append
        rendered_ids_connect split: prod.splits)
qed

lemma open_session_poll_log: "poll_log (open_session c d u p) = []"
  by (simp add: open_session_def Let_def fold_history_poll_log split: prod.splits)

lemma callbacks_step:
  assumes "\<forall>r. PCallback r \<in> set (poll_log s) \<longrightarrow> fst r \<le> last_id s"
  shows "\<forall>r. PCallback r \<in> set (poll_log (step u p s e)) \<longrightarrow> fst r \<le> last_id (step u p s e)"
proof (cases e)
  case (PollHead c)
  show ?thesis
  proof (cases "poller s = AtHead")
    case True
    have "set (poll_log (poll_head u p c s)) \<subseteq>
        set (poll_log s) \<union> {PFetch (last_id s), PSleep POLL_INTERVAL}"
      by (auto simp: poll_head_def split: prod.splits list.splits)
    then show ?thesis
      using assms True
      by (fastforce simp: PollHead step_poll poll_head_fields)
  next
    case False
    then show ?thesis using assms by (simp add: PollHead step_poll_idle)
  qed
next
  case (PollDeliver b)
  show ?thesis
  proof (cases "poller s")
    case (Delivering r rs)
    have "set (poll_log (poll_deliver u b r rs s)) \<subseteq>
        set (poll_log s) \<union> {PCallback r, PSleep POLL_INTERVAL}"
      by (auto simp: poll_deliver_def Let_def split: list.splits if_splits)
    then show ?thesis
      using assms
      by (fastforce simp: PollDeliver Delivering step_poll poll_deliver_fields)
  qed (use assms in \<open>simp_all add: PollDeliver step_def\<close>)
next
  case PollWake
  then show ?thesis using assms by (cases "poller s") (simp_all add: step_def)
qed (use assms in \<open>simp_all add: fg_step_fields\<close>)

lemma callbacks_run:
  "\<forall>r. PCallback r \<in> set (poll_log s) \<longrightarrow> fst r \<le> last_id s \<Longrightarrow>
   \<forall>r. PCallback r \<in> set (poll_log (run u p s evs)) \<longrightarrow> fst r \<le> last_id (run u p s evs)"
proof (induction evs arbitrary: s)
  case Nil
  then show ?case by (simp add: run_Nil)
next
  case (Cons e evs)
  from Cons.IH [OF callbacks_step [OF Cons.prems] ] show ?case by (simp add: run_Cons)
qed

text \<open>
  After a message is sent into an empty conversation and shown, the rendered id is 1
  while the watermark is still 0.
\<close>

theorem C2_send_leaves_watermark_counterexample:
  "last_id (run alice bob fresh
      [Fg (Line ''hi'') DbOk 5, Fg (Line []) DbOk 5, Fg (Line []) DbOk 5, FgShow]) = 0
   \<and> rendered_ids (screen (run alice bob fresh
      [Fg (Line ''hi'') DbOk 5, Fg (Line []) DbOk 5, Fg (Line []) DbOk 5, FgShow])) = [1]
   \<and> \<not> (\<forall>rid \<in> set (rendered_ids (screen (run alice bob fresh
      [Fg (Line ''hi'') DbOk 5, Fg (Line []) DbOk 5, Fg (Line []) DbOk 5, FgShow]))).
        rid \<le> last_id (run alice bob fresh
      [Fg (Line ''hi'') DbOk 5, Fg (Line []) DbOk 5, Fg (Line []) DbOk 5, FgShow]))"
proof -
  have "run alice bob fresh
      [Fg (Line ''hi'') DbOk 5, Fg (Line []) DbOk 5, Fg (Line []) DbOk 5, FgShow]
    = \<lparr>db = \<lparr>messages = [(1, alice, bob, ''hi'', 5)], next_id = 2\<rparr>,
       displayed_ids = {1}, last_id = 0, stop_event = False, poller = AtHead,
       poll_log = [], fg = Reading [], submitted = [''hi''],
       screen = [NoHistory, Message 1 You ''hi'' 5]\<rparr>"
    unfolding fresh_eq
    by (simp add: run_Cons run_Nil step_def read_line_def compose_first compose_append
        compose_terminate eval_tokens submit_ok empty_db_def show_sent_def)
  then show ?thesis by simp
qed

text \<open>
  C2 as amended. The watermark \<open>last_id\<close> is seeded with the maximum of 0 and the
  ids of the history fetched when the session opens, never decreases under any step
  or schedule, and after each row the poller processes equals the maximum of its
  previous value and that row's id. Steps of the foreground (reload, clear, send)
  leave it unchanged. Hence on every schedule it is at least the id of every message
  rendered from the opening history and of every row the poller has passed to its
  callback.
\<close>

theorem C2_watermark:
  "last_id (open_session c d u p) = Max (set (0 # map fst (snd (get_chat_history_all c d u p))))
   \<and> last_id s \<le> last_id (step u p s e)
   \<and> last_id s \<le> last_id (run u p s evs)
   \<and> (poller s = Delivering r rs \<longrightarrow>
        last_id (step u p s (PollDeliver b)) = max (last_id s) (fst r))
   \<and> last_id (step u p s (Fg i c' now)) = last_id s
   \<and> last_id (step u p s FgShow) = last_id s
   \<and> (\<forall>rid \<in> set (rendered_ids (screen (open_session c d u p))).
        rid \<le> last_id (run u p (open_session c d u p) evs))
   \<and> (\<forall>r'. PCallback r' \<in> set (poll_log (run u p (open_session c d u p) evs)) \<longrightarrow>
        fst r' \<le> last_id (run u p (open_session c d u p) evs))"
proof (intro conjI impI)
  show "last_id (open_session c d u p) = Max (set (0 # map fst (snd (get_chat_history_all c d u p))))"
    by (rule open_session_watermark)
  show "last_id s \<le> last_id (step u p s e)" by (rule last_id_mono_step)
  show "last_id s \<le> last_id (run u p s evs)" by (rule last_id_mono_run)
  show "last_id (step u p s (Fg i c' now)) = last_id s" by (simp add: fg_step_fields)
  show "last_id (step u p s FgShow) = last_id s" by (simp add: fg_step_fields)
next
  assume "poller s = Delivering r rs"
  then show "last_id (step u p s (PollDeliver b)) = max (last_id s) (fst r)"
    by (simp add: step_poll poll_deliver_fields)
next
  show "\<forall>rid \<in> set (rendered_ids (screen (open_session c d u p))).
        rid \<le> last_id (run u p (open_session c d u p) evs)"
  proof
    fix rid
    assume "rid \<in> set (rendered_ids (screen (open_session c d u p)))"
    then have "rid \<in> set (0 # map fst (snd (get_chat_history_all c d u p)))"
      by (simp add: open_session_rendered)
    then have "rid \<le> Max (set (0 # map fst (snd (get_chat_history_all c d u p))))"
      by (intro Max_ge) simp_all
    also have "\<dots> = last_id (open_session c d u p)"
      by (rule open_session_watermark [symmetric])
    also have "\<dots> \<le> last_id (run u p (open_session c d u p) evs)"
      by (rule last_id_mono_run)
    finally show "rid \<le> last_id (run u p (open_session c d u p) evs)" .
  qed
next
  show "\<forall>r'. PCallback r' \<in> set (poll_log (run u p (open_session c d u p) evs)) \<longrightarrow>
        fst r' \<le> last_id (run u p (open_session c d u p) evs)"
    by (rule callbacks_run) (simp add: open_session_poll_log)
qed

theorem C2_watermark_witness:
  "last_id (run alice bob (step alice bob fresh (RemoteInsert bob alice ''yo'' 3))
      [PollHead DbOk, PollDeliver False]) = 1
   \<and> last_id (step alice bob fresh (RemoteInsert bob alice ''yo'' 3)) = 0
   \<and> last_id (open_session DbOk \<lparr>messages = [(4, bob, alice, ''yo'', 3)], next_id = 5\<rparr> alice bob) = 4
   \<and> rendered_ids (screen (open_session DbOk \<lparr>messages = [(4, bob, alice, ''yo'', 3)], next_id = 5\<rparr> alice bob)) = [4]"
  using C2_watermark [where s = "run alice bob (step alice bob fresh (RemoteInsert bob alice ''yo'' 3)) [PollHead DbOk]"
      and u = alice and p = bob and r = "(1, bob, ''yo'', 3)" and rs = "[]" and b = False
      and c = DbOk and d = "\<lparr>messages = [(4, bob, alice, ''yo'', 3)], next_id = 5\<rparr>" and evs = "[]"]
  unfolding fresh_eq
  by (simp add: run_Cons run_Nil step_def insert_simps fetch_since_simps fetch_all_simps empty_db_def
      in_conversation_def select_row_def poll_head_def open_session_def history_step_def
      render_def poll_deliver_def Let_def on_new_def)

section \<open>Reload after reload\<close>

lemma since_ids:
  "fst ` set (snd (get_chat_history_since DbOk d u p k))
     = fst ` {m \<in> set (messages d). in_conversation u p m \<and> k < fst m}"
proof -
  have "set (snd (get_chat_history_since DbOk d u p k))
      = select_row ` {m \<in> set (messages d). in_conversation u p m \<and> k < fst m}"
    by (auto simp: fetch_since_simps)
  then show ?thesis by (simp add: image_image fst_select_row)
qed

lemma reload_caught_up: "caught_up u p (reload u p DbOk s)"
proof -
  have "displayed_ids (reload u p DbOk s)
      = displayed_ids s \<union> fst ` set (snd (get_chat_history_since DbOk (db s) u p (last_id s)))"
    by (simp add: reload_def split: prod.splits)
  then show ?thesis
    unfolding caught_up_def since_ids by (auto simp: reload_fields)
qed

lemma caught_up_poll_step:
  assumes "is_poll e" and "caught_up u p s"
  shows "caught_up u p (step u p s e)"
proof (cases e)
  case (PollHead c)
  then show ?thesis
    using assms(2)
    by (cases "poller s") (simp_all add: step_def caught_up_def poll_head_fields)
next
  case (PollDeliver b)
  show ?thesis
  proof (cases "poller s")
    case (Delivering r rs)
    then show ?thesis
      using assms(2)
      by (auto simp: PollDeliver step_poll caught_up_def poll_deliver_fields)
  qed (use assms(2) in \<open>simp_all add: PollDeliver step_def\<close>)
next
  case PollWake
  then show ?thesis
    using assms(2) by (cases "poller s") (simp_all add: step_def caught_up_def)
qed (use assms(1) in simp_all)

lemma fg_poll_step: "is_poll e \<Longrightarrow> fg (step u p s e) = fg s"
  by (cases e; cases "poller s") (simp_all add: step_def poll_head_fields poll_deliver_fields)

lemma poll_run_keeps:
  "\<forall>e \<in> set evs. is_poll e \<Longrightarrow> caught_up u p s \<Longrightarrow>
   caught_up u p (run u p s evs) \<and> fg (run u p s evs) = fg s"
proof (induction evs arbitrary: s)
  case Nil
  then show ?case by (simp add: run_Nil)
next
  case (Cons e evs)
  then have e: "is_poll e" and rest: "\<forall>e \<in> set evs. is_poll e" by simp_all
  from Cons.IH [OF rest caught_up_poll_step [OF e Cons.prems(2)]]
  show ?case by (simp add: run_Cons fg_poll_step [OF e])
qed

lemma reload_noop:
  assumes "caught_up u p s"
  shows "reload u p c s = s\<lparr>screen := screen s @ fst (connect_db c)\<rparr>"
proof -
  obtain pr rows where g: "get_chat_history_since c (db s) u p (last_id s) = (pr, rows)"
    by (cases "get_chat_history_since c (db s) u p (last_id s)")
  have pr: "pr = fst (connect_db c)"
    using since_notice [of c "db s" u p "last_id s"] g by simp
  have "\<forall>r \<in> set rows. fst r \<in> displayed_ids (s\<lparr>screen := screen s @ pr\<rparr>)"
  proof
    fix r assume "r \<in> set rows"
    then have "r \<in> set (snd (get_chat_history_since c (db s) u p (last_id s)))"
      by (simp add: g)
    from since_rows_subset [OF this] assms
    show "fst r \<in> displayed_ids (s\<lparr>screen := screen s @ pr\<rparr>)"
      by (auto simp: caught_up_def fst_select_row)
  qed
  then have "fold (on_new u) rows (s\<lparr>screen := screen s @ pr\<rparr>) = s\<lparr>screen := screen s @ pr\<rparr>"
    by (rule fold_on_new_seen)
  then show ?thesis by (simp add: reload_def g pr)
qed

text \<open>
  The partner has written a row; a first reload cannot connect and shows nothing; the
  second reload, right after it, renders the row.
\<close>

theorem C7_failed_reload_counterexample:
  "rendered_ids (screen (run alice bob fresh
      [RemoteInsert bob alice ''yo'' 3, Fg (Line ''r'') (NoConnection ''timeout'') 0])) = []
   \<and> rendered_ids (screen (run alice bob fresh
      [RemoteInsert bob alice ''yo'' 3, Fg (Line ''r'') (NoConnection ''timeout'') 0,
       Fg (Line ''r'') DbOk 0])) = [1]"
  unfolding fresh_eq
  by (simp add: run_Cons run_Nil step_def insert_simps fetch_since_simps empty_db_def
      in_conversation_def select_row_def read_line_def compose_def eval_tokens reload_def
      on_new_def render_def)

text \<open>
  C7 as amended. When a manual reload whose fetch succeeds is followed by another manual
  reload, with only steps of the poller in between (so no row is written to the
  store), the second reload renders no message and adds nothing to the registry,
  whatever the outcome of its own fetch: it leaves the state as it was, apart from the
  notice of a failed connection.
\<close>

theorem C7_reload_twice:
  "fg s = Reading [] \<and> lower (strip l1) = ''r'' \<and> lower (strip l2) = ''r''
     \<and> (\<forall>e \<in> set evs. is_poll e) \<longrightarrow>
   (let s1 = step u p s (Fg (Line l1) DbOk n1);
        s2 = run u p s1 evs;
        s3 = step u p s2 (Fg (Line l2) c2 n2)
    in s3 = s2\<lparr>screen := screen s2 @ fst (connect_db c2)\<rparr>
     \<and> rendered_ids (screen s3) = rendered_ids (screen s2)
     \<and> displayed_ids s3 = displayed_ids s2)"
proof
  assume a: "fg s = Reading [] \<and> lower (strip l1) = ''r'' \<and> lower (strip l2) = ''r''
     \<and> (\<forall>e \<in> set evs. is_poll e)"
  define s1 where "s1 = step u p s (Fg (Line l1) DbOk n1)"
  define s2 where "s2 = run u p s1 evs"
  define s3 where "s3 = step u p s2 (Fg (Line l2) c2 n2)"
  have s1: "s1 = reload u p DbOk s"
    using a by (simp add: s1_def step_reading read_line_def compose_reload)
  then have "caught_up u p s1" and "fg s1 = Reading []"
    using a by (simp_all add: reload_caught_up reload_fields)
  with poll_run_keeps [of evs u p s1] a
  have c2: "caught_up u p s2" and f2: "fg s2 = Reading []"
    by (simp_all add: s2_def)
  have "s3 = reload u p c2 s2"
    using a f2 by (simp add: s3_def step_reading read_line_def compose_reload)
  then have s3: "s3 = s2\<lparr>screen := screen s2 @ fst (connect_db c2)\<rparr>"
    by (simp add: reload_noop [OF c2])
  then have "rendered_ids (screen s3) = rendered_ids (screen s2)"
    and "displayed_ids s3 = displayed_ids s2"
    by (simp_all add: rendered_ids_append rendered_ids_connect)
  with s3 show "let s1 = step u p s (Fg (Line l1) DbOk n1);
        s2 = run u p s1 evs;
        s3 = step u p s2 (Fg (Line l2) c2 n2)
    in s3 = s2\<lparr>screen := screen s2 @ fst (connect_db c2)\<rparr>
     \<and> rendered_ids (screen s3) = rendered_ids (screen s2)
     \<and> displayed_ids s3 = displayed_ids s2"
    unfolding Let_def s1_def [symmetric] s2_def [symmetric] s3_def [symmetric] by simp
qed

theorem C7_reload_twice_witness:
  "rendered_ids (screen (run alice bob fresh
      [RemoteInsert bob alice ''yo'' 3, Fg (Line ''r'') DbOk 0])) = [1]
   \<and> rendered_ids (screen (run alice bob fresh
      [RemoteInsert bob alice ''yo'' 3, Fg (Line ''r'') DbOk 0, PollHead DbOk,
       Fg (Line '' R'') DbOk 0])) = [1]"
proof -
  have e: "lower (strip ''r'') = ''r''" "lower (strip '' R'') = ''r''" by code_simp+
  have f: "fg (step alice bob fresh (RemoteInsert bob alice ''yo'' 3)) = Reading []"
    unfolding fresh_eq by (simp add: step_def)
  have p: "\<forall>e \<in> set [PollHead DbOk]. is_poll e" by simp
  have one: "rendered_ids (screen (run alice bob fresh
      [RemoteInsert bob alice ''yo'' 3, Fg (Line ''r'') DbOk 0])) = [1]"
    unfolding fresh_eq
    by (simp add: run_Cons run_Nil step_def insert_simps fetch_since_simps empty_db_def
      in_conversation_def select_row_def read_line_def compose_def eval_tokens reload_def
      on_new_def render_def)
  have poll: "rendered_ids (screen (run alice bob fresh
      [RemoteInsert bob alice ''yo'' 3, Fg (Line ''r'') DbOk 0, PollHead DbOk])) = [1]"
    unfolding fresh_eq
    by (simp add: run_Cons run_Nil step_def insert_simps fetch_since_simps empty_db_def
      in_conversation_def select_row_def read_line_def compose_def eval_tokens reload_def
      on_new_def render_def poll_head_def)
  from C7_reload_twice [where s = "step alice bob fresh (RemoteInsert bob alice ''yo'' 3)"
      and u = alice and p = bob and ?l1.0 = "''r''" and ?l2.0 = "'' R''" and evs = "[PollHead DbOk]"
      and ?n1.0 = 0 and ?n2.0 = 0 and ?c2.0 = DbOk] e f p
  have "rendered_ids (screen (run alice bob fresh
      [RemoteInsert bob alice ''yo'' 3, Fg (Line ''r'') DbOk 0, PollHead DbOk,
       Fg (Line '' R'') DbOk 0]))
    = rendered_ids (screen (run alice bob fresh
      [RemoteInsert bob alice ''yo'' 3, Fg (Line ''r'') DbOk 0, PollHead DbOk]))"
    by (simp add: run_Cons run_Nil Let_def)
  with one poll show ?thesis by simp
qed

section \<open>Clearing the conversation\<close>

lemma submit_db:
  "db (submit u p c now lines s) = db s
   \<or> (\<exists>x. db (submit u p c now lines s) =
         (db s)\<lparr>messages := messages (db s) @ [(next_id (db s), u, p, x, now)],
                next_id := next_id (db s) + 1\<rparr>)
   \<or> db (submit u p c now lines s) = (db s)\<lparr>next_id := next_id (db s) + 1\<rparr>"
  by (cases c) (auto simp: submit_def insert_simps Let_def)

lemma confirm_db:
  "db (confirm u p c i s) = db s
   \<or> db (confirm u p c i s) =
        (db s)\<lparr>messages := filter (\<lambda>m. \<not> in_conversation u p m) (messages (db s))\<rparr>"
  by (cases c; cases i) (simp_all add: confirm_def clear_simps)

lemma db_step_fg:
  "db (step u p s (Fg i c now)) = db s
   \<or> (\<exists>f t x n. db (step u p s (Fg i c now)) =
         (db s)\<lparr>messages := messages (db s) @ [(next_id (db s), f, t, x, n)],
                next_id := next_id (db s) + 1\<rparr>)
   \<or> db (step u p s (Fg i c now)) =
        (db s)\<lparr>messages := filter (\<lambda>m. \<not> in_conversation u p m) (messages (db s))\<rparr>
   \<or> db (step u p s (Fg i c now)) = (db s)\<lparr>next_id := next_id (db s) + 1\<rparr>"
proof (cases "fg s")
  case (Reading lines)
  then have "step u p s (Fg i c now) = compose u p c now lines (read_line i) s"
    by (simp add: step_def)
  moreover have "db (compose u p c now lines (read_line i) s) = db s
      \<or> (\<exists>ls. compose u p c now lines (read_line i) s = submit u p c now ls s)"
    by (auto simp: compose_def reload_fields)
  ultimately show ?thesis using submit_db [of u p c now _ s] by metis
next
  case Confirming
  then have "step u p s (Fg i c now) = confirm u p c i s" by (simp add: step_def)
  then show ?thesis using confirm_db [of u p c i s] by auto
qed (simp_all add: step_def)

lemma step_FgRaise:
  "step u p s (FgRaise i c now) = step u p s (Fg i c now)
   \<or> step u p s (FgRaise i c now) = reload_raising u p c s"
  by (cases "fg s") (simp_all add: step_def)

lemma db_step_cases:
  "db (step u p s e) = db s
   \<or> (\<exists>f t x n. db (step u p s e) =
         (db s)\<lparr>messages := messages (db s) @ [(next_id (db s), f, t, x, n)],
                next_id := next_id (db s) + 1\<rparr>)
   \<or> db (step u p s e) =
        (db s)\<lparr>messages := filter (\<lambda>m. \<not> in_conversation u p m) (messages (db s))\<rparr>
   \<or> db (step u p s e) = (db s)\<lparr>next_id := next_id (db s) + 1\<rparr>"
proof (cases e)
  case (Fg i c now)
  then show ?thesis using db_step_fg [of u p s i c now] by simp
next
  case FgShow
  then show ?thesis by (cases "fg s") (simp_all add: step_def show_sent_def)
next
  case (FgRaise i c now)
  from step_FgRaise [of u p s i c now] show ?thesis
  proof
    assume "step u p s (FgRaise i c now) = step u p s (Fg i c now)"
    then show ?thesis using db_step_fg [of u p s i c now] by (simp add: FgRaise)
  next
    assume "step u p s (FgRaise i c now) = reload_raising u p c s"
    then show ?thesis by (simp add: FgRaise reload_raising_fields)
  qed
next
  case FgShowRaise
  then show ?thesis by (cases "fg s") (simp_all add: step_def show_sent_raising_def)
next
  case (PollHead c)
  then show ?thesis by (cases "poller s") (simp_all add: step_def poll_head_fields)
next
  case (PollDeliver b)
  then show ?thesis by (cases "poller s") (simp_all add: step_def poll_deliver_fields)
next
  case PollWake
  then show ?thesis by (cases "poller s") (simp_all add: step_def)
next
  case (RemoteInsert f t x n)
  then show ?thesis by (simp add: step_def insert_simps) blast
qed

text \<open>A manual reload whose callback raises on the one new row: the id is registered,
  nothing is rendered, and the session is left with the stop event set.\<close>

lemma reload_raising_leaves:
  "fg (run alice bob fresh [RemoteInsert bob alice ''yo'' 3, FgRaise (Line ''r'') DbOk 0]) = Failed
   \<and> stop_event (run alice bob fresh
        [RemoteInsert bob alice ''yo'' 3, FgRaise (Line ''r'') DbOk 0])
   \<and> displayed_ids (run alice bob fresh
        [RemoteInsert bob alice ''yo'' 3, FgRaise (Line ''r'') DbOk 0]) = {1}
   \<and> rendered_ids (screen (run alice bob fresh
        [RemoteInsert bob alice ''yo'' 3, FgRaise (Line ''r'') DbOk 0])) = []"
  unfolding fresh_eq
  by (simp add: run_Cons run_Nil step_def insert_simps fetch_since_simps empty_db_def
      in_conversation_def select_row_def read_line_def eval_tokens reload_raising_def)

lemma above_step:
  assumes "k \<le> next_id (db s)"
    and "\<forall>m \<in> set (messages (db s)). in_conversation u p m \<longrightarrow> k \<le> fst m"
  shows "k \<le> next_id (db (step u p s e))
    \<and> (\<forall>m \<in> set (messages (db (step u p s e))). in_conversation u p m \<longrightarrow> k \<le> fst m)"
  using db_step_cases [of u p s e] assms by (elim disjE exE) auto

lemma above_run:
  "k \<le> next_id (db s) \<Longrightarrow>
   \<forall>m \<in> set (messages (db s)). in_conversation u p m \<longrightarrow> k \<le> fst m \<Longrightarrow>
   \<forall>m \<in> set (messages (db (run u p s evs))). in_conversation u p m \<longrightarrow> k \<le> fst m"
proof (induction evs arbitrary: s)
  case Nil
  then show ?case by (simp add: run_Nil)
next
  case (Cons e evs)
  from above_step [OF Cons.prems, of e]
  have "k \<le> next_id (db (step u p s e))"
    and "\<forall>m \<in> set (messages (db (step u p s e))). in_conversation u p m \<longrightarrow> k \<le> fst m"
    by simp_all
  from Cons.IH [OF this] show ?case by (simp add: run_Cons)
qed

text \<open>Well-formedness of the table is kept by every step, so it holds on every
  schedule of a session opened on a well-formed table.\<close>

lemma db_wf_step: "db_wf (db s) \<Longrightarrow> db_wf (db (step u p s e))"
  using db_step_cases [of u p s e] by (elim disjE exE) (auto simp: db_wf_def)

lemma db_wf_run: "db_wf (db s) \<Longrightarrow> db_wf (db (run u p s evs))"
  by (induction evs arbitrary: s) (simp_all add: run_Nil run_Cons db_wf_step)

lemma db_fold_history: "db (fold (history_step u) h s) = db s"
  by (induction h arbitrary: s) (simp_all add: history_step_def)

lemma db_open_session: "db (open_session c d u p) = d"
  by (simp add: open_session_def Let_def db_fold_history split: prod.splits)

lemma db_wf_reachable: "db_wf d \<Longrightarrow> db_wf (db (run u p (open_session c d u p) evs))"
  by (simp add: db_wf_run db_open_session)

lemma db_wf_empty: "db_wf empty_db"
  by (simp add: db_wf_def empty_db_def)

lemma reload_prefix: "prefix (screen s) (screen (reload u p c s))"
proof -
  obtain pr rows where g: "get_chat_history_since c (db s) u p (last_id s) = (pr, rows)"
    by (cases "get_chat_history_since c (db s) u p (last_id s)")
  have "prefix (screen s) (screen (s\<lparr>screen := screen s @ pr\<rparr>))" by simp
  also have "prefix \<dots> (screen (fold (on_new u) rows (s\<lparr>screen := screen s @ pr\<rparr>)))"
    by (rule fold_on_new_prefix)
  finally show ?thesis by (simp add: reload_def g)
qed

lemma submit_prefix: "prefix (screen s) (screen (submit u p c now lines s))"
  by (cases c) (simp_all add: submit_def insert_simps Let_def)

lemma confirm_prefix: "prefix (screen s) (screen (confirm u p c i s))"
  by (cases c; cases i) (simp_all add: confirm_def clear_simps)

lemma compose_prefix: "prefix (screen s) (screen (compose u p c now lines line s))"
  by (simp add: compose_def reload_prefix submit_prefix)

lemma poll_head_prefix: "prefix (screen s) (screen (poll_head u p c s))"
  by (simp add: poll_head_def split: prod.splits list.splits)

lemma poll_deliver_prefix: "prefix (screen s) (screen (poll_deliver u b r rs s))"
proof -
  have *: "\<And>t. screen t = screen s \<Longrightarrow> prefix (screen s) (screen (on_new u r t))"
    using on_new_prefix by metis
  show ?thesis
    by (simp add: poll_deliver_def Let_def * split: list.splits)
qed

lemma screen_step: "prefix (screen s) (screen (step u p s e))"
proof (cases e)
  case (Fg i c now)
  then show ?thesis
    by (cases "fg s") (simp_all add: step_def compose_prefix confirm_prefix)
next
  case FgShow
  then show ?thesis by (cases "fg s") (simp_all add: step_def show_sent_def)
next
  case (FgRaise i c now)
  then show ?thesis
    by (cases "fg s")
       (simp_all add: step_def compose_prefix confirm_prefix reload_raising_fields)
next
  case FgShowRaise
  then show ?thesis by (cases "fg s") (simp_all add: step_def show_sent_raising_def)
next
  case (PollHead c)
  then show ?thesis by (cases "poller s") (simp_all add: step_def poll_head_prefix)
next
  case (PollDeliver b)
  then show ?thesis by (cases "poller s") (simp_all add: step_def poll_deliver_prefix)
next
  case PollWake
  then show ?thesis by (cases "poller s") (simp_all add: step_def)
next
  case (RemoteInsert f t x n)
  then show ?thesis by (simp add: step_def)
qed

lemma screen_run: "prefix (screen s) (screen (run u p s evs))"
proof (induction evs arbitrary: s)
  case Nil
  show ?case by (simp add: run_Nil)
next
  case (Cons e evs)
  have "prefix (screen s) (screen (step u p s e))" by (rule screen_step)
  also have "prefix \<dots> (screen (run u p (step u p s e) evs))" by (rule Cons.IH)
  finally show ?case by (simp add: run_Cons)
qed

lemma confirm_yes:
  "lower (strip l) = ''y'' \<Longrightarrow>
   confirm u p DbOk (Line l) s =
     s\<lparr>db := (db s)\<lparr>messages := filter (\<lambda>m. \<not> in_conversation u p m) (messages (db s))\<rparr>,
       screen := screen s @ [ChatCleared], displayed_ids := {}, fg := Reading []\<rparr>"
  by (simp add: confirm_def clear_simps)

text \<open>
  C8. When the clear prompt is answered with a line that strips and lower-cases to
  \<open>y\<close> and \<open>clear_chat_between\<close> succeeds (on a table whose ids are all below the
  sequence's next value): the registry \<open>displayed_ids\<close> is empty; the table has lost
  exactly the rows of the conversation, and on every later schedule neither
  \<open>get_chat_history_all\<close> nor \<open>get_chat_history_since\<close> returns a row with the id of
  a deleted row, whatever the store's condition and the watermark asked for; the
  screen is what it was plus the line \<open>Chat cleared.\<close>, and it stays a prefix of the
  screen on every later schedule; the poller's position, log and watermark are
  untouched, and a poller that is in the middle of delivering fetched rows finishes the
  cycle and reaches its sleep, whether or not its callback raises.
\<close>

theorem C8_clear_chat:
  "fg s = Confirming \<and> lower (strip l) = ''y'' \<and> db_wf (db s) \<longrightarrow>
   (let s' = step u p s (Fg (Line l) DbOk now)
    in displayed_ids s' = {}
     \<and> messages (db s') = filter (\<lambda>m. \<not> in_conversation u p m) (messages (db s))
     \<and> (\<forall>m \<in> set (messages (db s)). in_conversation u p m \<longrightarrow>
          fst m \<notin> fst ` set (snd (get_chat_history_all c (db (run u p s' evs)) u p))
        \<and> fst m \<notin> fst ` set (snd (get_chat_history_since c (db (run u p s' evs)) u p k)))
     \<and> screen s' = screen s @ [ChatCleared]
     \<and> prefix (screen s) (screen (run u p s' evs))
     \<and> poller s' = poller s \<and> poll_log s' = poll_log s \<and> last_id s' = last_id s
     \<and> (\<forall>r rs (bs :: bool list). poller s = Delivering r rs \<and> length bs = Suc (length rs) \<longrightarrow>
          poller (run u p s' (map PollDeliver bs)) = Sleeping))"
proof
  assume a: "fg s = Confirming \<and> lower (strip l) = ''y'' \<and> db_wf (db s)"
  define s' where "s' = step u p s (Fg (Line l) DbOk now)"
  have s': "s' = s\<lparr>db := (db s)\<lparr>messages := filter (\<lambda>m. \<not> in_conversation u p m) (messages (db s))\<rparr>,
       screen := screen s @ [ChatCleared], displayed_ids := {}, fg := Reading []\<rparr>"
    using a by (simp add: s'_def step_confirming confirm_yes)
  have gone: "\<forall>m \<in> set (messages (db s)). in_conversation u p m \<longrightarrow>
          fst m \<notin> fst ` set (snd (get_chat_history_all c (db (run u p s' evs)) u p))
        \<and> fst m \<notin> fst ` set (snd (get_chat_history_since c (db (run u p s' evs)) u p k))"
  proof (intro ballI impI)
    fix m assume m: "m \<in> set (messages (db s))" and "in_conversation u p m"
    from a m have below: "fst m < next_id (db s)" by (simp add: db_wf_def)
    have "next_id (db s) \<le> next_id (db s')" by (simp add: s')
    moreover have "\<forall>m \<in> set (messages (db s')). in_conversation u p m \<longrightarrow> next_id (db s) \<le> fst m"
      by (simp add: s')
    ultimately have later: "\<forall>m' \<in> set (messages (db (run u p s' evs))).
        in_conversation u p m' \<longrightarrow> next_id (db s) \<le> fst m'"
      by (rule above_run)
    have "fst m \<notin> fst ` set (snd (get_chat_history_all c (db (run u p s' evs)) u p))"
    proof
      assume "fst m \<in> fst ` set (snd (get_chat_history_all c (db (run u p s' evs)) u p))"
      then obtain r where "r \<in> set (snd (get_chat_history_all c (db (run u p s' evs)) u p))"
        and "fst r = fst m" by auto
      with all_rows_subset [of r c "db (run u p s' evs)" u p] later below
      show False by (auto simp: fst_select_row)
    qed
    moreover have "fst m \<notin> fst ` set (snd (get_chat_history_since c (db (run u p s' evs)) u p k))"
    proof
      assume "fst m \<in> fst ` set (snd (get_chat_history_since c (db (run u p s' evs)) u p k))"
      then obtain r where "r \<in> set (snd (get_chat_history_since c (db (run u p s' evs)) u p k))"
        and "fst r = fst m" by auto
      with since_rows_subset [of r c "db (run u p s' evs)" u p k] later below
      show False by (auto simp: fst_select_row)
    qed
    ultimately show "fst m \<notin> fst ` set (snd (get_chat_history_all c (db (run u p s' evs)) u p))
        \<and> fst m \<notin> fst ` set (snd (get_chat_history_since c (db (run u p s' evs)) u p k))"
      by simp
  qed
  have "prefix (screen s) (screen s')" by (simp add: s')
  also have "prefix \<dots> (screen (run u p s' evs))" by (rule screen_run)
  finally have pre: "prefix (screen s) (screen (run u p s' evs))" .
  have flight: "\<forall>r rs (bs :: bool list). poller s = Delivering r rs \<and> length bs = Suc (length rs) \<longrightarrow>
          poller (run u p s' (map PollDeliver bs)) = Sleeping"
  proof (intro allI impI)
    fix r rs and bs :: "bool list"
    assume h: "poller s = Delivering r rs \<and> length bs = Suc (length rs)"
    then have "poller s' = Delivering r rs" by (simp add: s')
    with h show "poller (run u p s' (map PollDeliver bs)) = Sleeping"
      by (simp add: deliver_all_flags)
  qed
  show "let s' = step u p s (Fg (Line l) DbOk now)
    in displayed_ids s' = {}
     \<and> messages (db s') = filter (\<lambda>m. \<not> in_conversation u p m) (messages (db s))
     \<and> (\<forall>m \<in> set (messages (db s)). in_conversation u p m \<longrightarrow>
          fst m \<notin> fst ` set (snd (get_chat_history_all c (db (run u p s' evs)) u p))
        \<and> fst m \<notin> fst ` set (snd (get_chat_history_since c (db (run u p s' evs)) u p k)))
     \<and> screen s' = screen s @ [ChatCleared]
     \<and> prefix (screen s) (screen (run u p s' evs))
     \<and> poller s' = poller s \<and> poll_log s' = poll_log s \<and> last_id s' = last_id s
     \<and> (\<forall>r rs (bs :: bool list). poller s = Delivering r rs \<and> length bs = Suc (length rs) \<longrightarrow>
          poller (run u p s' (map PollDeliver bs)) = Sleeping)"
    unfolding Let_def s'_def [symmetric]
    using gone pre flight by (simp add: s')
qed

theorem C8_clear_chat_witness:
  "displayed_ids (run alice bob fresh
      [RemoteInsert bob alice ''yo'' 3, PollHead DbOk, Fg (Line ''c'') DbOk 0,
       Fg (Line '' Y'') DbOk 0]) = {}
   \<and> messages (db (run alice bob fresh
      [RemoteInsert bob alice ''yo'' 3, PollHead DbOk, Fg (Line ''c'') DbOk 0,
       Fg (Line '' Y'') DbOk 0])) = []
   \<and> poller (run alice bob fresh
      [RemoteInsert bob alice ''yo'' 3, PollHead DbOk, Fg (Line ''c'') DbOk 0,
       Fg (Line '' Y'') DbOk 0, PollDeliver False]) = Sleeping"
proof -
  let ?s0 = "run alice bob fresh
      [RemoteInsert bob alice ''yo'' 3, PollHead DbOk, Fg (Line ''c'') DbOk 0]"
  let ?s1 = "step alice bob ?s0 (Fg (Line '' Y'') DbOk 0)"
  have e: "lower (strip '' Y'') = ''y''" by code_simp
  have s: "?s0 = \<lparr>db = \<lparr>messages = [(1, bob, alice, ''yo'', 3)], next_id = 2\<rparr>,
         displayed_ids = {}, last_id = 0, stop_event = False,
         poller = Delivering (1, bob, ''yo'', 3) [], poll_log = [PFetch 0],
         fg = Confirming, submitted = [], screen = [NoHistory, ClearPrompt]\<rparr>"
    unfolding fresh_eq
    by (simp add: run_Cons run_Nil step_def insert_simps fetch_since_simps empty_db_def
      in_conversation_def select_row_def read_line_def compose_def eval_tokens poll_head_def)
  have hyp: "fg ?s0 = Confirming \<and> lower (strip '' Y'') = ''y'' \<and> db_wf (db ?s0)"
    unfolding s using e by (simp add: db_wf_def)
  from C8_clear_chat [where s = ?s0 and u = alice and p = bob and l = "'' Y''" and now = 0
      and evs = "[]" and c = DbOk and k = 0] hyp
  have all: "displayed_ids ?s1 = {}
     \<and> messages (db ?s1) = filter (\<lambda>m. \<not> in_conversation alice bob m) (messages (db ?s0))
     \<and> (\<forall>r rs (bs :: bool list). poller ?s0 = Delivering r rs \<and> length bs = Suc (length rs) \<longrightarrow>
          poller (run alice bob ?s1 (map PollDeliver bs)) = Sleeping)"
    unfolding Let_def by blast
  then have a: "displayed_ids ?s1 = {}" by blast
  from all have "messages (db ?s1) = filter (\<lambda>m. \<not> in_conversation alice bob m) (messages (db ?s0))"
    by blast
  then have b: "messages (db ?s1) = []"
    unfolding s by (simp add: in_conversation_def)
  from all have "poller ?s0 = Delivering (1, bob, ''yo'', 3) [] \<and> length [False] = Suc (length ([] :: row list)) \<longrightarrow>
          poller (run alice bob ?s1 (map PollDeliver [False])) = Sleeping"
    by blast
  then have c: "poller (run alice bob ?s1 [PollDeliver False]) = Sleeping"
    unfolding s by simp
  have cut: "\<And>evs. run alice bob fresh
      ([RemoteInsert bob alice ''yo'' 3, PollHead DbOk, Fg (Line ''c'') DbOk 0] @ Fg (Line '' Y'') DbOk 0 # evs)
     = run alice bob ?s1 evs"
    by (simp only: run_append run_Cons)
  show ?thesis
    using a b c cut [of "[]"] cut [of "[PollDeliver False]"] by (simp add: run_Nil)
qed

text \<open>
  C1. A schedule of one local send and one poller cycle on which a message is rendered
  twice: the foreground's insert returns id 1; before the foreground has added 1 to
  \<open>displayed_ids\<close> the poller fetches the new row and its callback, finding 1 not yet
  in the registry, renders it; the foreground then adds the id and renders the message
  again, without a membership test.
\<close>

theorem C1_send_race_renders_twice:
  "rendered_ids (screen (run alice bob fresh
      [Fg (Line ''hi'') DbOk 5, Fg (Line []) DbOk 5, Fg (Line []) DbOk 5,
       PollHead DbOk, PollDeliver False, FgShow])) = [1, 1]
   \<and> \<not> distinct (rendered_ids (screen (run alice bob fresh
      [Fg (Line ''hi'') DbOk 5, Fg (Line []) DbOk 5, Fg (Line []) DbOk 5,
       PollHead DbOk, PollDeliver False, FgShow])))"
proof -
  have "screen (run alice bob fresh
      [Fg (Line ''hi'') DbOk 5, Fg (Line []) DbOk 5, Fg (Line []) DbOk 5,
       PollHead DbOk, PollDeliver False, FgShow])
     = [NoHistory, Message 1 You ''hi'' 5, Message 1 You ''hi'' 5]"
    unfolding fresh_eq
    by (simp add: run_Cons run_Nil step_def read_line_def compose_first compose_append
        compose_terminate eval_tokens submit_ok empty_db_def show_sent_def poll_head_def
        fetch_since_simps in_conversation_def select_row_def poll_deliver_def Let_def on_new_def
        render_def)
  then show ?thesis by simp
qed

end
